theory Spec2Isabelle
  imports Main "HOL-Library.Word"
begin

section \<open>JavaScript values used by main.ts\<close>

text \<open>
  A JavaScript string is a sequence of UTF-16 code units, a \<open>Uint8Array\<close> a sequence of
  bytes. String literals of the source are ASCII and are written through \<open>js\<close>.
  Times and delays are whole milliseconds. Lines written by \<open>console.log\<close> change no
  state of \<open>Watcher\<close> or \<open>Server\<close> and are left out.
\<close>

type_synonym jsstring = "16 word list"
type_synonym bytes = "8 word list"

definition js :: "string \<Rightarrow> jsstring" where
  "js s = map of_char s"

section \<open>class Watcher\<close>

text \<open>
  The fields of the class are \<open>directories\<close>, \<open>abortSignal\<close>, \<open>minimumDelayMS\<close> and
  \<open>watching\<close>. \<open>abortSignal\<close> is \<open>None\<close> when the option was not supplied and
  \<open>Some fired\<close> otherwise, where \<open>fired\<close> tells whether the signal has already
  dispatched its one \<open>abort\<close> event.

  Every call of \<open>watch()\<close> that finds \<open>watching\<close> false creates a closure of its own: a
  counter \<open>outstanding\<close>, a handle returned by \<open>Deno.watchFs\<close> with the loop reading it,
  and (when there is a signal) an abort listener. Closures are numbered in the order of
  their creation; \<open>activations\<close> is the number created so far, \<open>outstanding\<close> maps a
  closure to its counter, \<open>fsOpen\<close> lists the closures whose handle is open and
  \<open>abortListeners\<close> those that registered a listener.

  \<open>timers\<close> is the runtime's queue of \<open>setTimeout(update, minimumDelayMS)\<close> callbacks that
  have not run yet, each with its due time and the closure it belongs to, oldest first
  (the delay is the same for all, so the queue is ordered by due time). \<open>now\<close> is the time
  of the task that ran last and \<open>dispatched\<close> records the times at which a
  \<open>WatcherUpdatedEvent\<close> was dispatched.

  \<open>setTimeout\<close> takes its delay as a 32-bit signed integer. A whole number of milliseconds
  up to 2147483647 is the delay as given; a larger one does not fit, and the runtime sets
  the delay to 1, so that the callback is due at once.
\<close>

record WatcherOptions =
  opt_directories :: "jsstring list"
  opt_abortSignal :: "bool option"
  opt_minimumDelayMS :: "nat option"

record Watcher =
  directories :: "jsstring list"
  abortSignal :: "bool option"
  minimumDelayMS :: nat
  watching :: bool
  activations :: nat
  outstanding :: "nat \<Rightarrow> int"
  fsOpen :: "nat list"
  abortListeners :: "nat list"
  timers :: "(nat \<times> nat) list"
  dispatched :: "nat list"
  now :: nat

definition new_Watcher :: "WatcherOptions \<Rightarrow> Watcher" where
  "new_Watcher options =
     \<lparr> directories = opt_directories options,
       abortSignal = opt_abortSignal options,
       minimumDelayMS = (case opt_minimumDelayMS options of None \<Rightarrow> 200 | Some d \<Rightarrow> d),
       watching = False,
       activations = 0,
       outstanding = (\<lambda>_. 0),
       fsOpen = [],
       abortListeners = [],
       timers = [],
       dispatched = [],
       now = 0 \<rparr>"

text \<open>
  \<open>watch()\<close>, lines 25 to 61: nothing but the log line happens when \<open>watching\<close> is set.
  \<open>Deno.watchFs\<close> is taken to return a handle (the directories exist).
\<close>

definition watch :: "Watcher \<Rightarrow> Watcher" where
  "watch w =
     (if \<not> watching w then
        (let a = activations w in
         w\<lparr> watching := True,
            activations := Suc a,
            outstanding := (outstanding w)(a := 0),
            fsOpen := fsOpen w @ [a],
            abortListeners :=
              (if abortSignal w \<noteq> None then abortListeners w @ [a] else abortListeners w) \<rparr>)
      else w)"

text \<open>The callback \<open>update\<close> of closure \<open>a\<close>, lines 31 to 36, run at time \<open>now\<close>.\<close>

definition update :: "nat \<Rightarrow> Watcher \<Rightarrow> Watcher" where
  "update a w =
     (let c = outstanding w a - 1;
          w' = w\<lparr> outstanding := (outstanding w)(a := c) \<rparr>
      in if c = 0 then w'\<lparr> dispatched := dispatched w' @ [now w'] \<rparr> else w')"

text \<open>The delay that \<open>setTimeout\<close> waits for when it is given \<open>delay\<close>.\<close>

definition setTimeout_delay :: "nat \<Rightarrow> nat" where
  "setTimeout_delay delay = (if delay > 2147483647 then 1 else delay)"

text \<open>The body of the loop over raw events of closure \<open>a\<close>, lines 42 to 44.\<close>

definition on_fs_event :: "nat \<Rightarrow> Watcher \<Rightarrow> Watcher" where
  "on_fs_event a w =
     w\<lparr> outstanding := (outstanding w)(a := outstanding w a + 1),
        timers := timers w @ [(now w + setTimeout_delay (minimumDelayMS w), a)] \<rparr>"

text \<open>The abort listener of closure \<open>a\<close>, lines 50 to 54.\<close>

definition on_abort :: "nat \<Rightarrow> Watcher \<Rightarrow> Watcher" where
  "on_abort a w = w\<lparr> fsOpen := removeAll a (fsOpen w), watching := False \<rparr>"

subsection \<open>The event loop\<close>

text \<open>
  The runtime runs one task at a time. \<open>step\<close> gives the state after a task, or \<open>None\<close>
  when the runtime cannot run that task in that state:
  \<^item> \<open>Watch\<close>: a call of \<open>watch()\<close>;
  \<^item> \<open>Abort\<close>: the signal fires; it does so at most once, and only a supplied signal can;
  \<^item> \<open>FsEvent t\<close>: the loop body for a raw event runs at time \<open>t\<close>, in every closure whose
    handle is open. Time does not run backwards;
  \<^item> \<open>Timeout r\<close>: the oldest waiting callback runs at time \<open>r\<close>, which is not before its
    due time.
  \<open>setTimeout\<close> promises a minimum delay and no more: a callback may run late, and the loop
  body for a raw event may run while callbacks that are due still wait. A callback due
  at the very time of a raw event may run before or after the loop body for that event.
  The source orders none of this, and all these schedules are steps.
\<close>

datatype task = Watch | Abort | FsEvent nat | Timeout nat

fun step :: "task \<Rightarrow> Watcher \<Rightarrow> Watcher option" where
  "step Watch w = Some (watch w)"
| "step Abort w =
     (case abortSignal w of
        Some False \<Rightarrow> Some (fold on_abort (abortListeners w) (w\<lparr> abortSignal := Some True \<rparr>))
      | _ \<Rightarrow> None)"
| "step (FsEvent t) w =
     (if now w \<le> t
      then Some (fold on_fs_event (fsOpen w) (w\<lparr> now := t \<rparr>))
      else None)"
| "step (Timeout r) w =
     (case timers w of
        [] \<Rightarrow> None
      | (u, a) # rest \<Rightarrow>
          if u \<le> r \<and> now w \<le> r
          then Some (update a (w\<lparr> now := r, timers := rest \<rparr>))
          else None)"

fun exec :: "task list \<Rightarrow> Watcher \<Rightarrow> Watcher option" where
  "exec [] w = Some w"
| "exec (x # xs) w = (case step x w of None \<Rightarrow> None | Some w' \<Rightarrow> exec xs w')"

text \<open>The raw event times of a schedule, and the number of waiting callbacks of a closure.\<close>

fun fs_times :: "task list \<Rightarrow> nat list" where
  "fs_times [] = []"
| "fs_times (FsEvent t # xs) = t # fs_times xs"
| "fs_times (_ # xs) = fs_times xs"

definition pending :: "nat \<Rightarrow> Watcher \<Rightarrow> nat" where
  "pending a w = length (filter (\<lambda>(u, b). b = a) (timers w))"

text \<open>
  A runtime that is not late. \<open>callbacks_first xs w\<close>: in the run of \<open>xs\<close> from \<open>w\<close>, no loop
  body for a raw event runs while a callback that was due before the event waits.
  \<open>on_time xs w\<close>: moreover, every callback runs at its due time.
\<close>

fun waited :: "task \<Rightarrow> Watcher \<Rightarrow> bool" where
  "waited (FsEvent t) w = list_all (\<lambda>(u, a). t \<le> u) (timers w)"
| "waited _ w = True"

fun prompt :: "task \<Rightarrow> Watcher \<Rightarrow> bool" where
  "prompt (Timeout r) w = (case timers w of [] \<Rightarrow> True | (u, a) # rest \<Rightarrow> r = u)"
| "prompt _ w = True"

fun callbacks_first :: "task list \<Rightarrow> Watcher \<Rightarrow> bool" where
  "callbacks_first [] w = True"
| "callbacks_first (x # xs) w =
     (waited x w \<and> (case step x w of None \<Rightarrow> True | Some w' \<Rightarrow> callbacks_first xs w'))"

fun on_time :: "task list \<Rightarrow> Watcher \<Rightarrow> bool" where
  "on_time [] w = True"
| "on_time (x # xs) w =
     (waited x w \<and> prompt x w \<and>
      (case step x w of None \<Rightarrow> True | Some w' \<Rightarrow> on_time xs w'))"

section \<open>Schedules and invariants of the Watcher\<close>

text \<open>
  \<open>loop_tasks\<close>: a schedule of raw events and callbacks only. \<open>gaps_below d\<close>,
  \<open>gaps_at_most d\<close> and \<open>gaps_above d\<close> compare each raw event time with the one before
  it: less than \<open>d\<close> later, at most \<open>d\<close> later, more than \<open>d\<close> later.
\<close>

definition loop_tasks :: "task list \<Rightarrow> bool" where
  "loop_tasks xs = (Watch \<notin> set xs \<and> Abort \<notin> set xs)"

fun gaps_below :: "nat \<Rightarrow> nat list \<Rightarrow> bool" where
  "gaps_below d (s # t # ts) = (t < s + d \<and> gaps_below d (t # ts))"
| "gaps_below d _ = True"

fun gaps_at_most :: "nat \<Rightarrow> nat list \<Rightarrow> bool" where
  "gaps_at_most d (s # t # ts) = (t \<le> s + d \<and> gaps_at_most d (t # ts))"
| "gaps_at_most d _ = True"


text \<open>
  \<open>chain d u ts\<close>: the first time of \<open>ts\<close> is before \<open>u\<close>, and each later one is less than
  \<open>d\<close> after the one before it.
\<close>

fun chain :: "nat \<Rightarrow> nat \<Rightarrow> nat list \<Rightarrow> bool" where
  "chain d u [] = True"
| "chain d u (t # ts) = (t < u \<and> chain d (t + d) ts)"

text \<open>
  \<open>schedule d q ts\<close> is one schedule for the raw events \<open>ts\<close> when the delay is \<open>d\<close> and the
  callbacks in the queue are due at \<open>q\<close>: whatever comes first runs first, every callback
  at its due time, and a raw event runs before a callback due at the same time.
\<close>

fun schedule :: "nat \<Rightarrow> nat list \<Rightarrow> nat list \<Rightarrow> task list" where
  "schedule d [] [] = []"
| "schedule d (u # q) [] = Timeout u # schedule d q []"
| "schedule d [] (t # ts) = FsEvent t # schedule d [t + d] ts"
| "schedule d (u # q) (t # ts) =
     (if u < t then Timeout u # schedule d q (t # ts)
      else FsEvent t # schedule d (u # q @ [t + d]) ts)"

text \<open>
  \<open>closures_ok\<close>: every counter equals the number of waiting callbacks of its closure, and
  only closures that exist have callbacks and handles. \<open>one_closure\<close>: closure 0 alone,
  with its handle open. \<open>in_window\<close>: the queue is ordered and no waiting callback is due
  later than one delay from now. \<open>none_overdue\<close>: no waiting callback was due before now.
  \<open>abort_ok\<close>: with a signal supplied, every open handle has its abort listener.
\<close>

definition closures_ok :: "Watcher \<Rightarrow> bool" where
  "closures_ok w =
     ((\<forall>a. outstanding w a = int (pending a w)) \<and>
      list_all (\<lambda>(u, b). b < activations w) (timers w) \<and>
      list_all (\<lambda>a. a < activations w) (fsOpen w))"

definition one_closure :: "Watcher \<Rightarrow> bool" where
  "one_closure w =
     (fsOpen w = [0] \<and> outstanding w 0 = int (length (timers w)) \<and>
      list_all (\<lambda>(u, b). b = 0) (timers w))"

definition in_window :: "Watcher \<Rightarrow> bool" where
  "in_window w =
     (sorted (map fst (timers w)) \<and>
      list_all (\<lambda>(u, b). u \<le> now w + setTimeout_delay (minimumDelayMS w)) (timers w))"

definition none_overdue :: "Watcher \<Rightarrow> bool" where
  "none_overdue w = list_all (\<lambda>(u, b). now w \<le> u) (timers w)"

definition abort_ok :: "Watcher \<Rightarrow> bool" where
  "abort_ok w =
     (abortSignal w \<noteq> None \<longrightarrow>
        set (fsOpen w) \<subseteq> set (abortListeners w) \<and> (watching w \<longrightarrow> abortListeners w \<noteq> []))"

section \<open>String and array methods\<close>

text \<open>
  \<open>String.prototype.endsWith\<close>, \<open>lastIndexOf\<close> and \<open>substr\<close>, and
  \<open>Array.prototype.indexOf\<close> and \<open>splice\<close>, as ECMAScript defines them for the
  arguments the source passes. \<open>lastIndexOf\<close> tries every position from
  \<open>length - searchLength\<close> down to 0 and answers -1 when none matches. \<open>substr\<close> without a
  length runs to the end of the string. A negative start of \<open>splice\<close> counts from the
  end of the array; \<open>splice\<close> gives the array as it is after the call.
\<close>

definition endsWith :: "jsstring \<Rightarrow> jsstring \<Rightarrow> bool" where
  "endsWith s searchString =
     (let len = int (length s);
          start = len - int (length searchString)
      in if start < 0 then False else drop (nat start) s = searchString)"

primrec lastIndexOf_loop :: "jsstring \<Rightarrow> jsstring \<Rightarrow> nat \<Rightarrow> int" where
  "lastIndexOf_loop s searchString 0 =
     (if take (length searchString) s = searchString then 0 else - 1)"
| "lastIndexOf_loop s searchString (Suc i) =
     (if take (length searchString) (drop (Suc i) s) = searchString then int (Suc i)
      else lastIndexOf_loop s searchString i)"

definition lastIndexOf :: "jsstring \<Rightarrow> jsstring \<Rightarrow> int" where
  "lastIndexOf s searchString =
     (let start = int (length s) - int (length searchString)
      in if start < 0 then - 1 else lastIndexOf_loop s searchString (nat start))"

definition substr :: "jsstring \<Rightarrow> int \<Rightarrow> int option \<Rightarrow> jsstring" where
  "substr s start len =
     (let size = int (length s);
          intStart = (if start < 0 then max (size + start) 0 else min start size);
          intLength = (case len of None \<Rightarrow> size | Some l \<Rightarrow> min (max l 0) size);
          intEnd = min (intStart + intLength) size
      in take (nat (intEnd - intStart)) (drop (nat intStart) s))"

primrec indexOf_loop :: "'a list \<Rightarrow> 'a \<Rightarrow> nat \<Rightarrow> int" where
  "indexOf_loop [] x k = - 1"
| "indexOf_loop (y # ys) x k = (if y = x then int k else indexOf_loop ys x (Suc k))"

definition indexOf :: "'a list \<Rightarrow> 'a \<Rightarrow> int" where
  "indexOf xs x = indexOf_loop xs x 0"

definition splice :: "'a list \<Rightarrow> int \<Rightarrow> int \<Rightarrow> 'a list" where
  "splice xs start deleteCount =
     (let len = int (length xs);
          actualStart = (if start < 0 then max (len + start) 0 else min start len);
          actualDeleteCount = min (max deleteCount 0) (len - actualStart)
      in take (nat actualStart) xs @ drop (nat (actualStart + actualDeleteCount)) xs)"

text \<open>A number that is a natural, as a template literal prints it.\<close>

function decimal :: "nat \<Rightarrow> string" where
  "decimal n =
     (if n < 10 then [''0123456789'' ! n]
      else decimal (n div 10) @ [''0123456789'' ! (n mod 10)])"
  by pat_completeness auto
termination
  by (relation "measure id") auto

declare decimal.simps [simp del]

section \<open>class Server\<close>

text \<open>
  A web socket is known by its identity, a number. \<open>reloadClients\<close> is the array of the
  class. The \<open>TextDecoder\<close> and the \<open>TextEncoder\<close> belong to the runtime and are found
  in \<open>platform\<close> below. The port is a natural number.
\<close>

type_synonym socket = nat

record Response =
  body :: bytes
  status :: nat

record ServerOptions =
  opt_root :: jsstring
  opt_port :: "nat option"
  opt_hostName :: "jsstring option"
  opt_watch :: "bool option"

record Server =
  root :: jsstring
  port :: nat
  hostName :: jsstring
  watcher :: "Watcher option"
  reloadEventPath :: jsstring
  reloadScript :: jsstring
  reloadClients :: "socket list"

text \<open>The constructor, lines 90 to 100; \<open>dquote\<close> is the double quote.\<close>

definition dquote :: jsstring where
  "dquote = [34]"

definition new_Server :: "ServerOptions \<Rightarrow> Server" where
  "new_Server options =
     (let root' = opt_root options;
          port' = (case opt_port options of None \<Rightarrow> 8888 | Some p \<Rightarrow> p);
          hostName' = (case opt_hostName options of None \<Rightarrow> js ''localhost'' | Some h \<Rightarrow> h);
          reloadEventPath' = js ''/.watch_n_serve/events''
      in \<lparr> root = root',
           port = port',
           hostName = hostName',
           watcher =
             (if opt_watch options = Some True
              then Some (new_Watcher \<lparr> opt_directories = [root'], opt_abortSignal = None,
                           opt_minimumDelayMS = None \<rparr>)
              else None),
           reloadEventPath = reloadEventPath',
           reloadScript =
             js ''<script>(new WebSocket('' @ dquote @ js ''ws://'' @ hostName' @ js '':'' @
             js (decimal port') @ reloadEventPath' @ dquote @ js '')).addEventListener('' @
             dquote @ js ''message'' @ dquote @
             js '', function (event) { window.location.reload(); });</script>'',
           reloadClients = [] \<rparr>)"

subsection \<open>The runtime seen by one request\<close>

text \<open>
  What the runtime answers while one request is handled: \<open>Deno.readFile\<close> on a path,
  the decoder and the encoder, \<open>Deno.upgradeWebSocket\<close> on the request (a socket with
  the response that switches protocols, or an exception) and \<open>respondWith\<close> on a
  response. Every call that can throw gives an \<open>error\<close> on the left. Deno's decoder
  replaces malformed input instead of throwing; the model lets it throw as well, and the
  handler treats that like any other exception.
\<close>

datatype error = NotFound | PermissionDenied | DecodeError | UpgradeError | ConnectionError

record platform =
  readFile :: "jsstring \<Rightarrow> error + bytes"
  decode :: "bytes \<Rightarrow> error + jsstring"
  encode :: "jsstring \<Rightarrow> bytes"
  upgradeWebSocket :: "error + socket \<times> Response"
  respondWith :: "Response \<Rightarrow> error + unit"

subsection \<open>Handling one request, lines 128 to 161\<close>

text \<open>Line 138.\<close>

definition resolve_path :: "Server \<Rightarrow> jsstring \<Rightarrow> jsstring" where
  "resolve_path srv pathname =
     root srv @ (if endsWith pathname (js ''/'') then pathname @ js ''index.html'' else pathname)"

text \<open>Lines 144 to 150.\<close>

definition insert_reload_script :: "Server \<Rightarrow> jsstring \<Rightarrow> jsstring" where
  "insert_reload_script srv text =
     (let index = lastIndexOf text (js ''</body>'')
      in if index \<ge> 0
         then substr text 0 (Some index) @ reloadScript srv @ substr text index None
         else text @ reloadScript srv)"

text \<open>
  The body of the inner \<open>try\<close>: the server as the body leaves it, the responses handed to
  \<open>respondWith\<close>, and the exception that ended it, if one did. A socket that was pushed
  stays in \<open>reloadClients\<close> when \<open>respondWith\<close> throws afterwards.
\<close>

definition respond :: "platform \<Rightarrow> Server \<Rightarrow> Response \<Rightarrow> Server \<times> Response list \<times> error option" where
  "respond pf srv r =
     (srv, [r], case respondWith pf r of Inl e \<Rightarrow> Some e | Inr _ \<Rightarrow> None)"

definition try_body :: "Server \<Rightarrow> platform \<Rightarrow> jsstring \<Rightarrow> Server \<times> Response list \<times> error option" where
  "try_body srv pf pathname =
     (if watcher srv \<noteq> None \<and> pathname = reloadEventPath srv then
        (case upgradeWebSocket pf of
           Inl e \<Rightarrow> (srv, [], Some e)
         | Inr (socket, response) \<Rightarrow>
             respond pf (srv\<lparr> reloadClients := reloadClients srv @ [socket] \<rparr>) response)
      else
        (let path = resolve_path srv pathname in
         case readFile pf path of
           Inl e \<Rightarrow> (srv, [], Some e)
         | Inr content \<Rightarrow>
             if watcher srv \<noteq> None \<and> endsWith path (js ''.html'') then
               (case decode pf content of
                  Inl e \<Rightarrow> (srv, [], Some e)
                | Inr text \<Rightarrow>
                    respond pf srv
                      \<lparr> body = encode pf (insert_reload_script srv text), status = 200 \<rparr>)
             else respond pf srv \<lparr> body = content, status = 200 \<rparr>))"

text \<open>
  The \<open>try\<close> with its \<open>catch\<close>: any exception is answered with status 404 and an empty
  body. \<open>thrown\<close> is the exception of that second \<open>respondWith\<close>, which leaves the loop
  of the connection.
\<close>

record handled =
  server :: Server
  responses :: "Response list"
  thrown :: "error option"

definition serve_request :: "Server \<Rightarrow> platform \<Rightarrow> jsstring \<Rightarrow> handled" where
  "serve_request srv pf pathname =
     (case try_body srv pf pathname of
        (srv', rs, None) \<Rightarrow> \<lparr> server = srv', responses = rs, thrown = None \<rparr>
      | (srv', rs, Some e) \<Rightarrow>
          \<lparr> server = srv',
            responses = rs @ [\<lparr> body = [], status = 404 \<rparr>],
            thrown = (case respondWith pf \<lparr> body = [], status = 404 \<rparr> of
                        Inl e' \<Rightarrow> Some e' | Inr _ \<Rightarrow> None) \<rparr>)"

subsection \<open>The listeners\<close>

text \<open>The listener for \<open>close\<close> of a socket, line 134.\<close>

definition on_close :: "Server \<Rightarrow> socket \<Rightarrow> Server" where
  "on_close srv socket =
     srv\<lparr> reloadClients := splice (reloadClients srv) (indexOf (reloadClients srv) socket) 1 \<rparr>"

text \<open>
  The listener for \<open>updated\<close> of the watcher, lines 104 to 112. \<open>send\<close> is what
  \<open>socket.send\<close> does; the loop records every call with its socket, its message and
  whether it returned. The listener assigns to no field of the server.
\<close>

primrec send_loop ::
  "(socket \<Rightarrow> jsstring \<Rightarrow> error + unit) \<Rightarrow> socket list \<Rightarrow> (socket \<times> jsstring \<times> bool) list" where
  "send_loop send [] = []"
| "send_loop send (socket # rest) =
     (case send socket (js ''updated'') of
        Inl e \<Rightarrow> (socket, js ''updated'', False) # send_loop send rest
      | Inr _ \<Rightarrow> (socket, js ''updated'', True) # send_loop send rest)"

definition on_updated ::
  "Server \<Rightarrow> (socket \<Rightarrow> jsstring \<Rightarrow> error + unit) \<Rightarrow> Server \<times> (socket \<times> jsstring \<times> bool) list" where
  "on_updated srv send = (srv, send_loop send (reloadClients srv))"

text \<open>
  \<open>serve()\<close>, lines 102 to 175, registers the listener above, starts to listen and calls
  \<open>watch()\<close> on the watcher. \<open>Deno.listen\<close> is taken to return a listener (the port is
  free).
\<close>

definition serve :: "Server \<Rightarrow> Server" where
  "serve srv = srv\<lparr> watcher := map_option watch (watcher srv) \<rparr>"

subsection \<open>The server over time\<close>

text \<open>
  What happens at a server on which \<open>serve()\<close> was called, as line 189 does once, one
  event at a time: a request is handled, a socket closes, or the watcher takes a raw
  event or runs a callback (nothing but \<open>serve()\<close> calls \<open>watch()\<close>, and the watcher of a
  server has no abort signal). When that task dispatches a notification, the listener
  for \<open>updated\<close> runs within it. The list beside the server holds the calls of
  \<open>socket.send\<close> made during the event.
\<close>

datatype server_event =
  Request platform jsstring
| Close socket
| WatcherTask task "socket \<Rightarrow> jsstring \<Rightarrow> error + unit"

fun server_step :: "server_event \<Rightarrow> Server \<Rightarrow> (Server \<times> (socket \<times> jsstring \<times> bool) list) option" where
  "server_step (Request pf pathname) srv = Some (server (serve_request srv pf pathname), [])"
| "server_step (Close socket) srv = Some (on_close srv socket, [])"
| "server_step (WatcherTask x send) srv =
     (if x = Watch \<or> x = Abort then None
      else
        (case watcher srv of
           None \<Rightarrow> None
         | Some w \<Rightarrow>
             (case step x w of
                None \<Rightarrow> None
              | Some w' \<Rightarrow>
                  if dispatched w' \<noteq> dispatched w
                  then Some (on_updated (srv\<lparr> watcher := Some w' \<rparr>) send)
                  else Some (srv\<lparr> watcher := Some w' \<rparr>, []))))"

fun server_exec :: "server_event list \<Rightarrow> Server \<Rightarrow> (Server \<times> (socket \<times> jsstring \<times> bool) list) option" where
  "server_exec [] srv = Some (srv, [])"
| "server_exec (e # es) srv =
     (case server_step e srv of
        None \<Rightarrow> None
      | Some (srv', sent) \<Rightarrow>
          (case server_exec es srv' of
             None \<Rightarrow> None
           | Some (srv'', sent') \<Rightarrow> Some (srv'', sent @ sent')))"

text \<open>
  Sockets as the runtime makes and closes them. \<open>upgraded srv pf pathname\<close> is the
  socket the request registers, if it does. \<open>track\<close> follows the sockets through the
  events: \<open>used\<close> are the sockets made so far and \<open>live\<close> those registered and not yet
  closed. It gives \<open>None\<close> when an upgrade returns a socket made before, or \<open>close\<close>
  comes to a socket that is not registered or was closed already; the runtime does
  neither (every upgrade makes a new object, and \<open>close\<close> is dispatched once, to the
  listener that line 133 registered).
\<close>

definition upgraded :: "Server \<Rightarrow> platform \<Rightarrow> jsstring \<Rightarrow> socket option" where
  "upgraded srv pf pathname =
     (if watcher srv \<noteq> None \<and> pathname = reloadEventPath srv
      then (case upgradeWebSocket pf of Inl e \<Rightarrow> None | Inr (socket, response) \<Rightarrow> Some socket)
      else None)"

fun track ::
  "Server \<Rightarrow> server_event list \<Rightarrow> socket list \<times> socket list \<Rightarrow> (socket list \<times> socket list) option" where
  "track srv [] lu = Some lu"
| "track srv (Request pf pathname # es) (live, used) =
     (case upgraded srv pf pathname of
        None \<Rightarrow> track srv es (live, used)
      | Some socket \<Rightarrow>
          if socket \<in> set used then None else track srv es (live @ [socket], socket # used))"
| "track srv (Close socket # es) (live, used) =
     (if socket \<in> set live then track srv es (remove1 socket live, used) else None)"
| "track srv (WatcherTask x send # es) (live, used) = track srv es (live, used)"

definition sockets_ok :: "Server \<Rightarrow> server_event list \<Rightarrow> bool" where
  "sockets_ok srv es = (track srv es ([], []) \<noteq> None)"

text \<open>The response that the handler hands to \<open>respondWith\<close> first.\<close>

definition first_response :: "handled \<Rightarrow> Response option" where
  "first_response h = (case responses h of [] \<Rightarrow> None | r # rs \<Rightarrow> Some r)"

text \<open>\<open>occurs_at pat s i\<close>: \<open>pat\<close> stands in \<open>s\<close> at position \<open>i\<close>.\<close>

definition occurs_at :: "jsstring \<Rightarrow> jsstring \<Rightarrow> nat \<Rightarrow> bool" where
  "occurs_at pat s i = (i + length pat \<le> length s \<and> take (length pat) (drop i s) = pat)"

text \<open>
  \<open>same_config\<close>: two servers agree on whether they watch and on the path of the push
  channel, which is all that decides whether a request is an upgrade.
\<close>

definition same_config :: "Server \<Rightarrow> Server \<Rightarrow> bool" where
  "same_config cfg srv =
     ((watcher cfg = None \<longleftrightarrow> watcher srv = None) \<and> reloadEventPath cfg = reloadEventPath srv)"

subsection \<open>An example site\<close>

text \<open>
  The server of lines 178 to 189 with the root \<open>site\<close>, which holds \<open>index.html\<close> and
  \<open>style.css\<close>, and a runtime whose decoder and encoder are those of UTF-8 on ASCII text
  and whose connection takes every response.
\<close>

definition ascii :: "string \<Rightarrow> bytes" where
  "ascii s = map of_char s"

definition example_site :: "jsstring \<Rightarrow> error + bytes" where
  "example_site path =
     (if path = js ''site/index.html'' then Inr (ascii ''<html><body>hi</body></html>'')
      else if path = js ''site/style.css'' then Inr (ascii ''p { }'')
      else Inl NotFound)"

definition example_platform :: "error + socket \<times> Response \<Rightarrow> platform" where
  "example_platform up =
     \<lparr> readFile = example_site,
       decode = (\<lambda>b. Inr (map ucast b)),
       encode = map ucast,
       upgradeWebSocket = up,
       respondWith = (\<lambda>r. Inr ()) \<rparr>"

definition example_server :: Server where
  "example_server =
     serve (new_Server \<lparr> opt_root = js ''site'', opt_port = Some 8888,
       opt_hostName = Some (js ''localhost''), opt_watch = Some True \<rparr>)"

section \<open>Watcher: activation\<close>

lemma watch_sets_watching: "watching (watch w)"
  by (simp add: watch_def Let_def)

lemma watch_when_watching: "watching w \<Longrightarrow> watch w = w"
  by (simp add: watch_def)

lemma exec_replicate_Watch:
  "exec (replicate n Watch) (watch w) = Some (watch w)"
  by (induction n) (simp_all add: watch_when_watching watch_sets_watching)

text \<open>
  C9. A call of \<open>watch()\<close> on a Watcher that is already watching returns it unchanged, so
  a second call changes nothing, any number of calls in a row equals one call, and a new
  Watcher has one closure and one open handle after two calls.
\<close>

theorem watch_is_idempotent:
  "(watching w \<longrightarrow> watch w = w) \<and> watch (watch w) = watch w \<and>
   exec (replicate (Suc n) Watch) w = Some (watch w) \<and>
   activations (watch (watch (new_Watcher options))) = 1 \<and>
   fsOpen (watch (watch (new_Watcher options))) = [0]"
proof -
  have "activations (watch (new_Watcher options)) = 1" "fsOpen (watch (new_Watcher options)) = [0]"
    by (simp_all add: watch_def new_Watcher_def Let_def)
  then show ?thesis
    by (simp add: watch_when_watching watch_sets_watching exec_replicate_Watch)
qed

theorem watch_is_idempotent_witness:
  "watching (watch (new_Watcher \<lparr> opt_directories = [js ''site''], opt_abortSignal = None,
        opt_minimumDelayMS = None \<rparr>)) \<and>
   watch (watch (new_Watcher \<lparr> opt_directories = [js ''site''], opt_abortSignal = None,
        opt_minimumDelayMS = None \<rparr>)) =
     watch (new_Watcher \<lparr> opt_directories = [js ''site''], opt_abortSignal = None,
        opt_minimumDelayMS = None \<rparr>) \<and>
   exec [Watch, Watch, Watch] (new_Watcher \<lparr> opt_directories = [js ''site''],
        opt_abortSignal = None, opt_minimumDelayMS = None \<rparr>) =
     Some (watch (new_Watcher \<lparr> opt_directories = [js ''site''], opt_abortSignal = None,
        opt_minimumDelayMS = None \<rparr>))"
  using watch_is_idempotent [of "watch (new_Watcher \<lparr> opt_directories = [js ''site''],
        opt_abortSignal = None, opt_minimumDelayMS = None \<rparr>)" 2]
    watch_is_idempotent [of "new_Watcher \<lparr> opt_directories = [js ''site''],
        opt_abortSignal = None, opt_minimumDelayMS = None \<rparr>" 2]
  by (simp add: watch_sets_watching numeral_2_eq_2)

section \<open>Watcher: the counter and the waiting callbacks\<close>

lemma pending_none: "list_all (\<lambda>(u, b). b < n) (timers w) \<Longrightarrow> n \<le> a \<Longrightarrow> pending a w = 0"
  by (auto simp: pending_def list_all_iff filter_empty_conv)

lemma closures_ok_new: "closures_ok (new_Watcher options)"
  by (simp add: closures_ok_def new_Watcher_def pending_def)

lemma closures_ok_watch: "closures_ok w \<Longrightarrow> closures_ok (watch w)"
proof (cases "watching w")
  case True
  assume "closures_ok w"
  with True show ?thesis by (simp add: watch_when_watching)
next
  case False
  assume ok: "closures_ok w"
  then have "list_all (\<lambda>(u, b). b < activations w) (timers w)"
    by (simp add: closures_ok_def)
  then have none: "pending (activations w) w = 0"
    by (rule pending_none) simp
  have p: "pending a (watch w) = pending a w" for a
    by (simp add: pending_def watch_def Let_def)
  from ok False none show ?thesis
    unfolding closures_ok_def p
    by (auto simp: watch_def Let_def list_all_iff)
qed

lemma closures_ok_on_fs_event:
  "closures_ok w \<Longrightarrow> a < activations w \<Longrightarrow> closures_ok (on_fs_event a w)"
  by (auto simp: closures_ok_def on_fs_event_def pending_def list_all_iff)

lemma on_fs_event_keeps [simp]:
  "activations (on_fs_event a w) = activations w"
  "fsOpen (on_fs_event a w) = fsOpen w"
  "dispatched (on_fs_event a w) = dispatched w"
  "watching (on_fs_event a w) = watching w"
  "now (on_fs_event a w) = now w"
  "minimumDelayMS (on_fs_event a w) = minimumDelayMS w"
  "abortSignal (on_fs_event a w) = abortSignal w"
  "abortListeners (on_fs_event a w) = abortListeners w"
  by (simp_all add: on_fs_event_def)

lemma fold_on_fs_event_keeps [simp]:
  "activations (fold on_fs_event as w) = activations w"
  "fsOpen (fold on_fs_event as w) = fsOpen w"
  "dispatched (fold on_fs_event as w) = dispatched w"
  "watching (fold on_fs_event as w) = watching w"
  "now (fold on_fs_event as w) = now w"
  "minimumDelayMS (fold on_fs_event as w) = minimumDelayMS w"
  "abortSignal (fold on_fs_event as w) = abortSignal w"
  "abortListeners (fold on_fs_event as w) = abortListeners w"
  by (induction as arbitrary: w; simp)+

lemma closures_ok_fold_on_fs_event:
  "closures_ok w \<Longrightarrow> list_all (\<lambda>a. a < activations w) as \<Longrightarrow> closures_ok (fold on_fs_event as w)"
  by (induction as arbitrary: w) (simp_all add: closures_ok_on_fs_event)

lemma on_abort_keeps [simp]:
  "activations (on_abort a w) = activations w"
  "timers (on_abort a w) = timers w"
  "outstanding (on_abort a w) = outstanding w"
  "dispatched (on_abort a w) = dispatched w"
  "now (on_abort a w) = now w"
  "minimumDelayMS (on_abort a w) = minimumDelayMS w"
  "abortSignal (on_abort a w) = abortSignal w"
  "abortListeners (on_abort a w) = abortListeners w"
  by (simp_all add: on_abort_def)

lemma fold_on_abort_keeps [simp]:
  "activations (fold on_abort as w) = activations w"
  "timers (fold on_abort as w) = timers w"
  "outstanding (fold on_abort as w) = outstanding w"
  "dispatched (fold on_abort as w) = dispatched w"
  "now (fold on_abort as w) = now w"
  "minimumDelayMS (fold on_abort as w) = minimumDelayMS w"
  "abortSignal (fold on_abort as w) = abortSignal w"
  "abortListeners (fold on_abort as w) = abortListeners w"
  by (induction as arbitrary: w; simp)+

lemma fold_on_abort_fsOpen:
  "fsOpen (fold on_abort as w) = filter (\<lambda>a. a \<notin> set as) (fsOpen w)"
proof (induction as arbitrary: w)
  case Nil
  show ?case by simp
next
  case (Cons a as)
  have "fsOpen (on_abort a w) = filter (\<lambda>b. b \<noteq> a) (fsOpen w)"
    by (simp add: on_abort_def removeAll_filter_not_eq) (metis)
  with Cons show ?case by (auto intro: filter_cong)
qed

lemma fold_on_abort_stays_off:
  "\<not> watching w \<Longrightarrow> \<not> watching (fold on_abort as w)"
  by (induction as arbitrary: w) (simp_all add: on_abort_def)

lemma fold_on_abort_watching:
  "watching (fold on_abort as w) = (as = [] \<and> watching w)"
proof (cases as)
  case Nil
  then show ?thesis by simp
next
  case (Cons a as')
  have "\<not> watching (fold on_abort as' (on_abort a w))"
    by (rule fold_on_abort_stays_off) (simp add: on_abort_def)
  with Cons show ?thesis by simp
qed

lemma closures_ok_fold_on_abort:
  "closures_ok w \<Longrightarrow> closures_ok (fold on_abort as w)"
  by (simp add: closures_ok_def pending_def fold_on_abort_fsOpen list_all_iff)

lemma closures_ok_timeout:
  assumes "closures_ok w" "timers w = (u, a) # rest"
  shows "closures_ok (update a (w\<lparr> now := r, timers := rest \<rparr>))"
  using assms by (auto simp: closures_ok_def update_def Let_def pending_def)

lemma closures_ok_step:
  assumes "closures_ok w" "step x w = Some w'"
  shows "closures_ok w'"
proof (cases x)
  case Watch
  with assms show ?thesis by (auto simp: closures_ok_watch)
next
  case Abort
  have "closures_ok (w\<lparr> abortSignal := Some True \<rparr>)"
    using assms(1) by (simp add: closures_ok_def pending_def)
  with Abort assms(2) show ?thesis
    by (auto simp: closures_ok_fold_on_abort split: option.splits bool.splits)
next
  case (FsEvent t)
  have "closures_ok (w\<lparr> now := t \<rparr>)"
    using assms(1) by (simp add: closures_ok_def pending_def)
  moreover have "list_all (\<lambda>a. a < activations (w\<lparr> now := t \<rparr>)) (fsOpen (w\<lparr> now := t \<rparr>))"
    using assms(1) by (simp add: closures_ok_def)
  ultimately have "closures_ok (fold on_fs_event (fsOpen (w\<lparr> now := t \<rparr>)) (w\<lparr> now := t \<rparr>))"
    by (rule closures_ok_fold_on_fs_event)
  with FsEvent assms(2) show ?thesis by (auto split: if_splits)
next
  case (Timeout r)
  with assms show ?thesis
    by (auto simp: closures_ok_timeout split: list.splits if_splits)
qed

lemma closures_ok_exec:
  "closures_ok w \<Longrightarrow> exec xs w = Some w' \<Longrightarrow> closures_ok w'"
proof (induction xs arbitrary: w)
  case Nil
  then show ?case by simp
next
  case (Cons x xs)
  then show ?case by (auto split: option.splits dest: closures_ok_step)
qed

lemma update_keeps [simp]:
  "activations (update a w) = activations w"
  "fsOpen (update a w) = fsOpen w"
  "timers (update a w) = timers w"
  "watching (update a w) = watching w"
  "now (update a w) = now w"
  "minimumDelayMS (update a w) = minimumDelayMS w"
  "abortSignal (update a w) = abortSignal w"
  "abortListeners (update a w) = abortListeners w"
  by (simp_all add: update_def Let_def)

text \<open>
  C10. In every state the Watcher reaches from its construction, by any schedule, the
  counter of each closure equals the number of its callbacks that are scheduled and have
  not run, so it is never negative; and a step dispatches a notification exactly when it
  is a callback whose decrement takes its counter from 1 to 0.
\<close>

theorem outstanding_counts_waiting_callbacks:
  assumes "exec xs (new_Watcher options) = Some w"
  shows "(\<forall>a. outstanding w a = int (pending a w)) \<and>
    (\<forall>a. 0 \<le> outstanding w a) \<and>
    (\<forall>x w'. step x w = Some w' \<longrightarrow>
       (dispatched w' = dispatched w \<or> dispatched w' = dispatched w @ [now w']) \<and>
       (dispatched w' \<noteq> dispatched w \<longleftrightarrow>
          (\<exists>r u a rest. x = Timeout r \<and> timers w = (u, a) # rest \<and>
             outstanding w a = 1 \<and> outstanding w' a = 0)))"
proof -
  have ok: "closures_ok w"
    by (rule closures_ok_exec [OF closures_ok_new assms])
  then have count: "\<forall>a. outstanding w a = int (pending a w)"
    by (simp add: closures_ok_def)
  have steps: "(dispatched w' = dispatched w \<or> dispatched w' = dispatched w @ [now w']) \<and>
       (dispatched w' \<noteq> dispatched w \<longleftrightarrow>
          (\<exists>r u a rest. x = Timeout r \<and> timers w = (u, a) # rest \<and>
             outstanding w a = 1 \<and> outstanding w' a = 0))"
    if s: "step x w = Some w'" for x w'
  proof (cases x)
    case Watch
    with s show ?thesis by (auto simp: watch_def Let_def)
  next
    case Abort
    with s show ?thesis by (auto split: option.splits bool.splits)
  next
    case (FsEvent t)
    with s show ?thesis by (auto split: if_splits)
  next
    case (Timeout r)
    with s obtain u a rest where tw: "timers w = (u, a) # rest"
      and w': "w' = update a (w\<lparr> now := r, timers := rest \<rparr>)"
      by (auto split: list.splits if_splits)
    show ?thesis
    proof (cases "outstanding w a = 1")
      case True
      then have "dispatched w' = dispatched w @ [now w']" "outstanding w' a = 0"
        by (simp_all add: w' update_def Let_def)
      with True tw Timeout show ?thesis by simp
    next
      case False
      then have "dispatched w' = dispatched w"
        by (simp add: w' update_def Let_def)
      with False tw Timeout show ?thesis by simp
    qed
  qed
  from count steps show ?thesis by simp
qed

theorem outstanding_counts_waiting_callbacks_witness:
  "outstanding (the (exec [Watch, FsEvent 0, FsEvent 50, Timeout 200]
     (new_Watcher \<lparr> opt_directories = [js ''site''], opt_abortSignal = None,
        opt_minimumDelayMS = None \<rparr>))) 0 = 1 \<and>
   pending 0 (the (exec [Watch, FsEvent 0, FsEvent 50, Timeout 200]
     (new_Watcher \<lparr> opt_directories = [js ''site''], opt_abortSignal = None,
        opt_minimumDelayMS = None \<rparr>))) = 1 \<and>
   map_option dispatched (step (Timeout 250) (the (exec [Watch, FsEvent 0, FsEvent 50, Timeout 200]
     (new_Watcher \<lparr> opt_directories = [js ''site''], opt_abortSignal = None,
        opt_minimumDelayMS = None \<rparr>)))) = Some [250]"
proof -
  let ?o = "\<lparr> opt_directories = [js ''site''], opt_abortSignal = None, opt_minimumDelayMS = None \<rparr>"
  let ?xs = "[Watch, FsEvent 0, FsEvent 50, Timeout 200]"
  have "\<exists>w. exec ?xs (new_Watcher ?o) = Some w \<and> timers w = [(250, 0)] \<and> dispatched w = [] \<and>
      now w = 200"
    by (simp add: new_Watcher_def watch_def on_fs_event_def update_def setTimeout_delay_def
        Let_def)
  then obtain w where run: "exec ?xs (new_Watcher ?o) = Some w"
    and tw: "timers w = [(250, 0)]" and dw: "dispatched w = []" and nw: "now w = 200"
    by blast
  let ?w' = "update 0 (w\<lparr> now := 250, timers := [] \<rparr>)"
  have s: "step (Timeout 250) w = Some ?w'"
    by (simp add: tw nw)
  from outstanding_counts_waiting_callbacks [OF run]
  have count: "outstanding w 0 = int (pending 0 w)"
    and either: "dispatched ?w' = dispatched w \<or> dispatched ?w' = dispatched w @ [now ?w']"
    and differ: "dispatched ?w' \<noteq> dispatched w \<longleftrightarrow>
          (\<exists>r u a rest. Timeout 250 = Timeout r \<and> timers w = (u, a) # rest \<and>
             outstanding w a = 1 \<and> outstanding ?w' a = 0)"
    using s by blast+
  have p: "pending 0 w = 1" by (simp add: pending_def tw)
  with count have o: "outstanding w 0 = 1" by simp
  then have "outstanding ?w' 0 = 0" by (simp add: update_def Let_def)
  with differ tw o have "dispatched ?w' \<noteq> dispatched w" by simp
  with either dw have "dispatched ?w' = [250]" by simp
  with s run p o show ?thesis by simp
qed

section \<open>Watcher: cancellation\<close>

lemma exec_append:
  "exec (xs @ ys) w = (case exec xs w of None \<Rightarrow> None | Some w1 \<Rightarrow> exec ys w1)"
  by (induction xs arbitrary: w) (simp_all split: option.splits)

lemma abort_ok_new: "abort_ok (new_Watcher options)"
  by (simp add: abort_ok_def new_Watcher_def)

lemma abort_ok_step:
  assumes "abort_ok w" "step x w = Some w'"
  shows "abort_ok w'"
proof (cases x)
  case Watch
  show ?thesis
  proof (cases "watching w")
    case True
    with Watch assms show ?thesis by (simp add: watch_when_watching)
  next
    case False
    with Watch assms(2) have "w' = w\<lparr> watching := True, activations := Suc (activations w),
        outstanding := (outstanding w)(activations w := 0),
        fsOpen := fsOpen w @ [activations w],
        abortListeners :=
          (if abortSignal w \<noteq> None then abortListeners w @ [activations w]
           else abortListeners w) \<rparr>"
      by (simp add: watch_def Let_def)
    with assms(1) show ?thesis
      by (cases "abortSignal w") (auto simp: abort_ok_def)
  qed
next
  case Abort
  with assms(2) have "abortSignal w = Some False"
    and w': "w' = fold on_abort (abortListeners w) (w\<lparr> abortSignal := Some True \<rparr>)"
    by (auto split: option.splits bool.splits)
  with assms(1) have "set (fsOpen w) \<subseteq> set (abortListeners w)"
    and "watching w \<longrightarrow> abortListeners w \<noteq> []"
    by (simp_all add: abort_ok_def)
  then show ?thesis
    by (auto simp: w' abort_ok_def fold_on_abort_fsOpen fold_on_abort_watching)
next
  case (FsEvent t)
  with assms show ?thesis by (auto simp: abort_ok_def split: if_splits)
next
  case (Timeout r)
  with assms(2) obtain a rest where "w' = update a (w\<lparr> now := r, timers := rest \<rparr>)"
    by (auto split: list.splits if_splits)
  with assms(1) show ?thesis by (simp add: abort_ok_def)
qed

lemma abort_ok_exec:
  "abort_ok w \<Longrightarrow> exec xs w = Some w' \<Longrightarrow> abort_ok w'"
proof (induction xs arbitrary: w)
  case Nil
  then show ?case by simp
next
  case (Cons x xs)
  then show ?case by (auto split: option.splits dest: abort_ok_step)
qed

text \<open>
  C8. When the abort signal fires, \<open>watching\<close> becomes false and every handle is closed,
  while the queue of callbacks, the counters and the notifications so far stay as they
  are; the oldest waiting callback can still run afterwards, at any time from its due
  time on, and it dispatches a notification if its decrement takes the counter to 0.
\<close>

theorem abort_leaves_callbacks_waiting:
  assumes "exec xs (new_Watcher options) = Some w" and "step Abort w = Some w'"
  shows "\<not> watching w' \<and> fsOpen w' = [] \<and> timers w' = timers w \<and>
    outstanding w' = outstanding w \<and> dispatched w' = dispatched w \<and>
    (\<forall>u a rest r. timers w = (u, a) # rest \<and> u \<le> r \<and> now w \<le> r \<longrightarrow>
       (\<exists>w''. step (Timeout r) w' = Some w'' \<and> \<not> watching w'' \<and> timers w'' = rest \<and>
          dispatched w'' = (if outstanding w a = 1 then dispatched w @ [r] else dispatched w)))"
proof -
  have ok: "abort_ok w" by (rule abort_ok_exec [OF abort_ok_new assms(1)])
  from assms(2) have sig: "abortSignal w = Some False"
    and w': "w' = fold on_abort (abortListeners w) (w\<lparr> abortSignal := Some True \<rparr>)"
    by (auto split: option.splits bool.splits)
  from ok sig have sub: "set (fsOpen w) \<subseteq> set (abortListeners w)"
    and on: "watching w \<Longrightarrow> abortListeners w \<noteq> []"
    by (simp_all add: abort_ok_def)
  have off: "\<not> watching w'"
    using on by (auto simp: w' fold_on_abort_watching)
  have closed: "fsOpen w' = []"
    using sub by (auto simp: w' fold_on_abort_fsOpen filter_empty_conv)
  have same: "timers w' = timers w" "outstanding w' = outstanding w" "dispatched w' = dispatched w"
    and clock: "now w' = now w"
    by (simp_all add: w')
  have late: "\<exists>w''. step (Timeout r) w' = Some w'' \<and> \<not> watching w'' \<and> timers w'' = rest \<and>
          dispatched w'' = (if outstanding w a = 1 then dispatched w @ [r] else dispatched w)"
    if "timers w = (u, a) # rest \<and> u \<le> r \<and> now w \<le> r" for u a rest r
    using that off same clock by (simp add: update_def Let_def)
  from off closed same late show ?thesis by blast
qed

theorem abort_leaves_callbacks_waiting_witness:
  "map_option (\<lambda>w. (watching w, fsOpen w, timers w, dispatched w))
     (exec [Watch, FsEvent 0, Abort]
       (new_Watcher \<lparr> opt_directories = [js ''site''], opt_abortSignal = Some False,
          opt_minimumDelayMS = None \<rparr>)) = Some (False, [], [(200, 0)], []) \<and>
   map_option (\<lambda>w. (watching w, dispatched w))
     (exec [Watch, FsEvent 0, Abort, Timeout 200]
       (new_Watcher \<lparr> opt_directories = [js ''site''], opt_abortSignal = Some False,
          opt_minimumDelayMS = None \<rparr>)) = Some (False, [200])"
proof -
  let ?o = "\<lparr> opt_directories = [js ''site''], opt_abortSignal = Some False,
          opt_minimumDelayMS = None \<rparr>"
  have "\<exists>w. exec [Watch, FsEvent 0] (new_Watcher ?o) = Some w \<and> timers w = [(200, 0)] \<and>
      dispatched w = [] \<and> outstanding w 0 = 1 \<and> abortSignal w = Some False \<and> now w = 0"
    by (simp add: new_Watcher_def watch_def on_fs_event_def setTimeout_delay_def Let_def)
  then obtain w where run: "exec [Watch, FsEvent 0] (new_Watcher ?o) = Some w"
    and tw: "timers w = [(200, 0)]" and dw: "dispatched w = []" and ow: "outstanding w 0 = 1"
    and sw: "abortSignal w = Some False" and nw: "now w = 0"
    by blast
  obtain w' where ab: "step Abort w = Some w'"
    by (simp add: sw)
  note stopped = abort_leaves_callbacks_waiting [OF run ab]
  from stopped tw dw
  have after: "\<not> watching w'" "fsOpen w' = []" "timers w' = [(200, 0)]" "dispatched w' = []"
    by simp_all
  from stopped
  have every: "\<forall>u a rest r. timers w = (u, a) # rest \<and> u \<le> r \<and> now w \<le> r \<longrightarrow>
       (\<exists>w''. step (Timeout r) w' = Some w'' \<and> \<not> watching w'' \<and> timers w'' = rest \<and>
          dispatched w'' = (if outstanding w a = 1 then dispatched w @ [r] else dispatched w))"
    by blast
  have "timers w = (200, 0) # [] \<and> (200::nat) \<le> 200 \<and> now w \<le> 200"
    by (simp add: tw nw)
  with every have "\<exists>w''. step (Timeout 200) w' = Some w'' \<and> \<not> watching w'' \<and> timers w'' = [] \<and>
          dispatched w'' = (if outstanding w 0 = 1 then dispatched w @ [200] else dispatched w)"
    by blast
  with ow dw obtain w'' where
    late: "step (Timeout 200) w' = Some w''" "\<not> watching w''" "dispatched w'' = [200]"
    by auto
  have "exec ([Watch, FsEvent 0] @ [Abort]) (new_Watcher ?o) = Some w'"
    unfolding exec_append using run ab by simp
  moreover have "exec ([Watch, FsEvent 0] @ [Abort, Timeout 200]) (new_Watcher ?o) = Some w''"
    unfolding exec_append using run ab late(1) by simp
  ultimately show ?thesis using after late by simp
qed

section \<open>Watcher: one burst, one notification\<close>

lemma setTimeout_delay_fits: "d \<le> 2147483647 \<Longrightarrow> setTimeout_delay d = d"
  by (simp add: setTimeout_delay_def)


lemma one_closure_watch_new: "one_closure (watch (new_Watcher options))"
  by (simp add: one_closure_def watch_def new_Watcher_def Let_def)

lemma in_window_watch_new: "in_window (watch (new_Watcher options))"
  by (simp add: in_window_def watch_def new_Watcher_def Let_def)

lemma none_overdue_watch_new: "none_overdue (watch (new_Watcher options))"
  by (simp add: none_overdue_def watch_def new_Watcher_def Let_def)

lemma on_time_callbacks_first: "on_time xs w \<Longrightarrow> callbacks_first xs w"
  by (induction xs arbitrary: w) (auto split: option.splits)

lemma step_FsEvent_one:
  assumes "one_closure w" "step (FsEvent t) w = Some w'"
  shows "w' = on_fs_event 0 (w\<lparr> now := t \<rparr>) \<and> now w \<le> t"
  using assms by (auto simp: one_closure_def split: if_splits)

lemma one_closure_FsEvent:
  assumes "one_closure w" "step (FsEvent t) w = Some w'"
  shows "one_closure w'"
  using step_FsEvent_one [OF assms] assms(1)
  by (simp add: one_closure_def on_fs_event_def)

lemma in_window_FsEvent:
  assumes "one_closure w" "in_window w" "step (FsEvent t) w = Some w'"
  shows "in_window w'"
proof -
  let ?d = "setTimeout_delay (minimumDelayMS w)"
  from step_FsEvent_one [OF assms(1,3)]
  have w': "w' = on_fs_event 0 (w\<lparr> now := t \<rparr>)" and t: "now w \<le> t"
    by simp_all
  have "sorted (map fst (timers w) @ [t + ?d])"
    using assms(2) t by (fastforce simp: in_window_def sorted_append list_all_iff)
  moreover have "list_all (\<lambda>(u, b). u \<le> t + ?d) (timers w)"
    using assms(2) t by (fastforce simp: in_window_def list_all_iff)
  ultimately show ?thesis
    by (simp add: w' in_window_def on_fs_event_def)
qed

lemma step_Timeout_one:
  assumes "one_closure w" "step (Timeout r) w = Some w'"
  shows "\<exists>u rest. timers w = (u, 0) # rest \<and> u \<le> r \<and> now w \<le> r \<and>
    w' = update 0 (w\<lparr> now := r, timers := rest \<rparr>)"
  using assms by (auto simp: one_closure_def split: list.splits if_splits)

lemma one_closure_Timeout:
  assumes "one_closure w" "step (Timeout r) w = Some w'"
  shows "one_closure w'"
  using step_Timeout_one [OF assms] assms(1)
  by (auto simp: one_closure_def update_def Let_def)

lemma in_window_Timeout:
  assumes "one_closure w" "in_window w" "step (Timeout r) w = Some w'"
  shows "in_window w'"
proof -
  let ?d = "setTimeout_delay (minimumDelayMS w)"
  from step_Timeout_one [OF assms(1,3)] obtain u rest
    where tm: "timers w = (u, 0) # rest" and r: "now w \<le> r"
      and w': "w' = update 0 (w\<lparr> now := r, timers := rest \<rparr>)"
    by blast
  have "now w' = r" "timers w' = rest" "minimumDelayMS w' = minimumDelayMS w"
    by (simp_all add: w' update_def Let_def)
  moreover have "sorted (map fst rest)" "\<forall>(v, b) \<in> set rest. v \<le> r + ?d"
    using assms(2) tm r by (fastforce simp: in_window_def list_all_iff)+
  ultimately show ?thesis
    by (simp add: in_window_def list_all_iff)
qed

lemma gaps_below_chain: "gaps_below d (t # ts) = chain d (t + d) ts"
  by (induction ts arbitrary: t) auto

text \<open>With no callback waiting and every remaining raw event earlier than \<open>now\<close>, nothing can run.\<close>

lemma idle_is_over:
  assumes "timers w = []" "loop_tasks xs" "exec xs w = Some w'" "chain d (now w) (fs_times xs)"
  shows "xs = []"
proof (cases xs)
  case Nil
  then show ?thesis .
next
  case (Cons x xs')
  with assms show ?thesis
    by (cases x) (auto simp: loop_tasks_def split: option.splits if_splits)
qed

text \<open>
  While callbacks wait and each further raw event comes before the last of them is due,
  nothing is dispatched until the queue is empty; that is the end of the run, and the
  callback that empties the queue dispatches.
\<close>

lemma burst:
  assumes "one_closure w" "in_window w" "timers w \<noteq> []" "loop_tasks xs"
    and "chain (setTimeout_delay (minimumDelayMS w)) (fst (last (timers w))) (fs_times xs)"
    and "exec xs w = Some w'" "timers w' = []"
  shows "dispatched w' = dispatched w @ [now w'] \<and>
    last (fst (last (timers w)) #
      map (\<lambda>t. t + setTimeout_delay (minimumDelayMS w)) (fs_times xs)) \<le> now w' \<and>
    (on_time xs w \<longrightarrow> now w' =
      last (fst (last (timers w)) #
        map (\<lambda>t. t + setTimeout_delay (minimumDelayMS w)) (fs_times xs)))"
  using assms
proof (induction xs arbitrary: w)
  case Nil
  then show ?case by simp
next
  case (Cons x xs)
  let ?d = "setTimeout_delay (minimumDelayMS w)"
  from Cons.prems(4) have lt: "loop_tasks xs" and x: "x \<noteq> Watch" "x \<noteq> Abort"
    by (auto simp: loop_tasks_def)
  from Cons.prems(6) obtain w1 where s: "step x w = Some w1" and e: "exec xs w1 = Some w'"
    by (auto split: option.splits)
  from s have ot: "on_time (x # xs) w \<longrightarrow> on_time xs w1"
    by simp
  let ?T = "last (fst (last (timers w)) # map (\<lambda>t. t + ?d) (fs_times (x # xs)))"
  have "dispatched w' = dispatched w @ [now w'] \<and> ?T \<le> now w' \<and>
    (on_time (x # xs) w \<longrightarrow> now w' = ?T)"
  proof (cases x)
    case Watch
    with x show ?thesis by simp
  next
    case Abort
    with x show ?thesis by simp
  next
    case (FsEvent t)
    from s FsEvent have s': "step (FsEvent t) w = Some w1" by simp
    have w1: "w1 = on_fs_event 0 (w\<lparr> now := t \<rparr>)"
      using step_FsEvent_one [OF Cons.prems(1) s'] by simp
    have tm: "timers w1 = timers w @ [(t + ?d, 0)]"
      and d: "minimumDelayMS w1 = minimumDelayMS w" and dp: "dispatched w1 = dispatched w"
      by (simp_all add: w1 on_fs_event_def)
    have "dispatched w' = dispatched w1 @ [now w'] \<and>
      last (fst (last (timers w1)) #
        map (\<lambda>t. t + setTimeout_delay (minimumDelayMS w1)) (fs_times xs)) \<le> now w' \<and>
      (on_time xs w1 \<longrightarrow> now w' =
        last (fst (last (timers w1)) #
          map (\<lambda>t. t + setTimeout_delay (minimumDelayMS w1)) (fs_times xs)))"
    proof (rule Cons.IH)
      show "one_closure w1" by (rule one_closure_FsEvent [OF Cons.prems(1) s'])
      show "in_window w1" by (rule in_window_FsEvent [OF Cons.prems(1,2) s'])
      show "timers w1 \<noteq> []" by (simp add: tm)
      show "loop_tasks xs" by (rule lt)
      show "chain (setTimeout_delay (minimumDelayMS w1)) (fst (last (timers w1))) (fs_times xs)"
        using Cons.prems(5) FsEvent by (simp add: tm d)
      show "exec xs w1 = Some w'" by (rule e)
      show "timers w' = []" by (rule Cons.prems(7))
    qed
    then have "dispatched w' = dispatched w @ [now w'] \<and> ?T \<le> now w' \<and>
      (on_time xs w1 \<longrightarrow> now w' = ?T)"
      by (simp add: tm d dp FsEvent)
    with ot show ?thesis by blast
  next
    case (Timeout r)
    from s Timeout have s': "step (Timeout r) w = Some w1" by simp
    from step_Timeout_one [OF Cons.prems(1) s'] obtain u rest
      where tw: "timers w = (u, 0) # rest" and ur: "u \<le> r"
        and w1: "w1 = update 0 (w\<lparr> now := r, timers := rest \<rparr>)"
      by blast
    have out: "outstanding w 0 = 1 + int (length rest)"
      using Cons.prems(1) tw by (simp add: one_closure_def)
    have tm: "timers w1 = rest" and d: "minimumDelayMS w1 = minimumDelayMS w"
      and n: "now w1 = r"
      by (simp_all add: w1 update_def Let_def)
    show ?thesis
    proof (cases "rest = []")
      case True
      have dp: "dispatched w1 = dispatched w @ [r]"
        using out True by (simp add: w1 update_def Let_def)
      from Cons.prems(5) Timeout tw True have c: "chain ?d u (fs_times xs)"
        by simp
      have "chain ?d (now w1) (fs_times xs)"
      proof (cases "fs_times xs")
        case Nil
        then show ?thesis by simp
      next
        case (Cons t ts)
        with c ur n show ?thesis by simp
      qed
      with tm True lt e have "xs = []"
        by (auto intro: idle_is_over)
      moreover have "on_time (x # xs) w \<longrightarrow> r = u"
        using Timeout tw by simp
      moreover have "now w' = r" "dispatched w' = dispatched w @ [r]"
        using e dp n \<open>xs = []\<close> by simp_all
      moreover have "?T = u"
        using tw True Timeout \<open>xs = []\<close> by simp
      ultimately show ?thesis
        using ur by auto
    next
      case False
      have dp: "dispatched w1 = dispatched w"
        using out False by (simp add: w1 update_def Let_def)
      have "dispatched w' = dispatched w1 @ [now w'] \<and>
        last (fst (last (timers w1)) #
          map (\<lambda>t. t + setTimeout_delay (minimumDelayMS w1)) (fs_times xs)) \<le> now w' \<and>
        (on_time xs w1 \<longrightarrow> now w' =
          last (fst (last (timers w1)) #
            map (\<lambda>t. t + setTimeout_delay (minimumDelayMS w1)) (fs_times xs)))"
      proof (rule Cons.IH)
        show "one_closure w1" by (rule one_closure_Timeout [OF Cons.prems(1) s'])
        show "in_window w1" by (rule in_window_Timeout [OF Cons.prems(1,2) s'])
        show "timers w1 \<noteq> []" by (simp add: tm False)
        show "loop_tasks xs" by (rule lt)
        show "chain (setTimeout_delay (minimumDelayMS w1)) (fst (last (timers w1))) (fs_times xs)"
          using Cons.prems(5) Timeout tw False by (simp add: tm d)
        show "exec xs w1 = Some w'" by (rule e)
        show "timers w' = []" by (rule Cons.prems(7))
      qed
      then have "dispatched w' = dispatched w @ [now w'] \<and> ?T \<le> now w' \<and>
        (on_time xs w1 \<longrightarrow> now w' = ?T)"
        using tw False by (simp add: tm d dp Timeout)
      with ot show ?thesis by blast
    qed
  qed
  then show ?case .
qed

lemma first_task:
  assumes "timers w = []" "loop_tasks xs" "exec xs w = Some w'" "fs_times xs \<noteq> []"
  shows "\<exists>t xs'. xs = FsEvent t # xs'"
proof (cases xs)
  case Nil
  with assms(4) show ?thesis by simp
next
  case (Cons x xs')
  with assms show ?thesis
    by (cases x) (auto simp: loop_tasks_def)
qed

lemma burst_notification:
  assumes run: "exec (Watch # xs) (new_Watcher options) = Some w'"
    and fin: "timers w' = []"
    and tasks: "loop_tasks xs"
    and some: "fs_times xs \<noteq> []"
    and fits: "minimumDelayMS (new_Watcher options) \<le> 2147483647"
    and near: "gaps_below (minimumDelayMS (new_Watcher options)) (fs_times xs)"
  shows "\<exists>r. dispatched w' = [r] \<and>
    last (fs_times xs) + minimumDelayMS (new_Watcher options) \<le> r \<and>
    (on_time (Watch # xs) (new_Watcher options) \<longrightarrow>
       r = last (fs_times xs) + minimumDelayMS (new_Watcher options))"
proof -
  let ?w0 = "watch (new_Watcher options)"
  let ?d = "minimumDelayMS (new_Watcher options)"
  have d0: "minimumDelayMS ?w0 = ?d" and t0: "timers ?w0 = []" and p0: "dispatched ?w0 = []"
    by (simp_all add: watch_def new_Watcher_def Let_def)
  from fits have sd: "setTimeout_delay ?d = ?d" by (rule setTimeout_delay_fits)
  from run have e0: "exec xs ?w0 = Some w'" by simp
  from first_task [OF t0 tasks e0 some] obtain t xs1 where xs: "xs = FsEvent t # xs1"
    by blast
  from e0 xs obtain w1 where s: "step (FsEvent t) ?w0 = Some w1" and e1: "exec xs1 w1 = Some w'"
    by (auto split: option.splits if_splits)
  have oc: "one_closure w1" by (rule one_closure_FsEvent [OF one_closure_watch_new s])
  have iw: "in_window w1"
    by (rule in_window_FsEvent [OF one_closure_watch_new in_window_watch_new s])
  have w1: "w1 = on_fs_event 0 (?w0\<lparr> now := t \<rparr>)"
    using step_FsEvent_one [OF one_closure_watch_new s] by simp
  have tm: "timers w1 = [(t + ?d, 0)]" and d1: "minimumDelayMS w1 = ?d" and p1: "dispatched w1 = []"
    by (simp_all add: w1 on_fs_event_def t0 d0 p0 sd)
  from s xs have ot: "on_time (Watch # xs) (new_Watcher options) \<Longrightarrow> on_time xs1 w1"
    by simp
  have "dispatched w' = dispatched w1 @ [now w'] \<and>
    last (fst (last (timers w1)) #
      map (\<lambda>t. t + setTimeout_delay (minimumDelayMS w1)) (fs_times xs1)) \<le> now w' \<and>
    (on_time xs1 w1 \<longrightarrow> now w' =
      last (fst (last (timers w1)) #
        map (\<lambda>t. t + setTimeout_delay (minimumDelayMS w1)) (fs_times xs1)))"
  proof (rule burst [OF oc iw _ _ _ e1 fin])
    show "timers w1 \<noteq> []" by (simp add: tm)
    show "loop_tasks xs1" using tasks xs by (simp add: loop_tasks_def)
    show "chain (setTimeout_delay (minimumDelayMS w1)) (fst (last (timers w1))) (fs_times xs1)"
      using near xs by (simp add: tm d1 sd gaps_below_chain)
  qed
  moreover have "last ((t + ?d) # map (\<lambda>t. t + ?d) (fs_times xs1)) = last (fs_times xs) + ?d"
    by (simp add: xs last_map)
  ultimately have "dispatched w' = [now w'] \<and> last (fs_times xs) + ?d \<le> now w' \<and>
    (on_time xs1 w1 \<longrightarrow> now w' = last (fs_times xs) + ?d)"
    by (simp add: tm d1 p1 sd)
  with ot show ?thesis by blast
qed

text \<open>The schedule \<open>schedule\<close> runs to the end, on time.\<close>

lemma fs_times_schedule: "fs_times (schedule d q ts) = ts"
  by (induction d q ts rule: schedule.induct) simp_all

lemma loop_tasks_schedule: "loop_tasks (schedule d q ts)"
  by (induction d q ts rule: schedule.induct) (simp_all add: loop_tasks_def)

lemma step_FsEvent_runs:
  assumes "one_closure w" "now w \<le> t"
  shows "step (FsEvent t) w = Some (on_fs_event 0 (w\<lparr> now := t \<rparr>))"
  using assms by (simp add: one_closure_def)

lemma step_Timeout_runs:
  assumes "one_closure w" "none_overdue w" "map fst (timers w) = u # q"
  shows "\<exists>rest. timers w = (u, 0) # rest \<and> map fst rest = q \<and>
    step (Timeout u) w = Some (update 0 (w\<lparr> now := u, timers := rest \<rparr>))"
  using assms by (cases "timers w") (auto simp: one_closure_def none_overdue_def)

lemma none_overdue_FsEvent:
  assumes "list_all (\<lambda>(u, a). t \<le> u) (timers w)"
  shows "none_overdue (on_fs_event 0 (w\<lparr> now := t \<rparr>))"
  using assms by (simp add: none_overdue_def on_fs_event_def)

lemma none_overdue_Timeout:
  assumes "in_window w" "timers w = (u, a) # rest"
  shows "none_overdue (update b (w\<lparr> now := u, timers := rest \<rparr>))"
  using assms by (fastforce simp: none_overdue_def in_window_def list_all_iff)

lemma schedule_runs:
  assumes "one_closure w" "in_window w" "none_overdue w"
    and "setTimeout_delay (minimumDelayMS w) = d" "map fst (timers w) = q"
    and "sorted ts" "\<forall>t \<in> set ts. now w \<le> t"
  shows "\<exists>w'. exec (schedule d q ts) w = Some w' \<and> timers w' = [] \<and> on_time (schedule d q ts) w"
  using assms
proof (induction d q ts arbitrary: w rule: schedule.induct)
  case (1 d)
  then show ?case by simp
next
  case (2 d u q)
  from step_Timeout_runs [OF "2.prems"(1,3,5)] obtain rest w1 where
    tw: "timers w = (u, 0) # rest" and
    s: "step (Timeout u) w = Some w1" and w1: "w1 = update 0 (w\<lparr> now := u, timers := rest \<rparr>)"
    and q: "map fst rest = q"
    by blast
  have "\<exists>w'. exec (schedule d q []) w1 = Some w' \<and> timers w' = [] \<and> on_time (schedule d q []) w1"
  proof (rule "2.IH")
    show "one_closure w1" by (rule one_closure_Timeout [OF "2.prems"(1) s])
    show "in_window w1" by (rule in_window_Timeout [OF "2.prems"(1,2) s])
    show "none_overdue w1" unfolding w1 by (rule none_overdue_Timeout [OF "2.prems"(2) tw])
    show "setTimeout_delay (minimumDelayMS w1) = d" using "2.prems"(4) by (simp add: w1)
    show "map fst (timers w1) = q" using q by (simp add: w1)
  qed simp_all
  with s tw show ?case by simp
next
  case (3 d t ts)
  from "3.prems"(5) have none: "timers w = []" by simp
  have s: "step (FsEvent t) w = Some (on_fs_event 0 (w\<lparr> now := t \<rparr>))"
    using "3.prems"(1,7) by (intro step_FsEvent_runs) simp_all
  let ?w1 = "on_fs_event 0 (w\<lparr> now := t \<rparr>)"
  have "\<exists>w'. exec (schedule d [t + d] ts) ?w1 = Some w' \<and> timers w' = [] \<and>
      on_time (schedule d [t + d] ts) ?w1"
  proof (rule "3.IH")
    show "one_closure ?w1" by (rule one_closure_FsEvent [OF "3.prems"(1) s])
    show "in_window ?w1" by (rule in_window_FsEvent [OF "3.prems"(1,2) s])
    show "none_overdue ?w1" by (rule none_overdue_FsEvent) (simp add: none)
    show "setTimeout_delay (minimumDelayMS ?w1) = d" using "3.prems"(4) by simp
    show "map fst (timers ?w1) = [t + d]"
      using "3.prems"(4) none by (simp add: on_fs_event_def)
    show "sorted ts" using "3.prems"(6) by simp
    show "\<forall>t' \<in> set ts. now ?w1 \<le> t'" using "3.prems"(6) by simp
  qed
  with s none show ?case by simp
next
  case (4 d u q t ts)
  show ?case
  proof (cases "u < t")
    case True
    from step_Timeout_runs [OF "4.prems"(1,3,5)] obtain rest w1 where
      tw: "timers w = (u, 0) # rest" and
      s: "step (Timeout u) w = Some w1" and w1: "w1 = update 0 (w\<lparr> now := u, timers := rest \<rparr>)"
      and q: "map fst rest = q"
      by blast
    have "\<exists>w'. exec (schedule d q (t # ts)) w1 = Some w' \<and> timers w' = [] \<and>
        on_time (schedule d q (t # ts)) w1"
    proof (rule "4.IH"(1) [OF True])
      show "one_closure w1" by (rule one_closure_Timeout [OF "4.prems"(1) s])
      show "in_window w1" by (rule in_window_Timeout [OF "4.prems"(1,2) s])
      show "none_overdue w1" unfolding w1 by (rule none_overdue_Timeout [OF "4.prems"(2) tw])
      show "setTimeout_delay (minimumDelayMS w1) = d" using "4.prems"(4) by (simp add: w1)
      show "map fst (timers w1) = q" using q by (simp add: w1)
      show "sorted (t # ts)" by (rule "4.prems"(6))
      show "\<forall>t' \<in> set (t # ts). now w1 \<le> t'"
        using True "4.prems"(6) by (auto simp: w1)
    qed
    with s tw True show ?thesis by simp
  next
    case False
    have "\<forall>v \<in> set (map fst (timers w)). u \<le> v"
      using "4.prems"(2,5) by (auto simp: in_window_def)
    with False have le: "list_all (\<lambda>(v, a). t \<le> v) (timers w)"
      by (fastforce simp: list_all_iff)
    have s: "step (FsEvent t) w = Some (on_fs_event 0 (w\<lparr> now := t \<rparr>))"
      using "4.prems"(1,7) by (intro step_FsEvent_runs) simp_all
    let ?w1 = "on_fs_event 0 (w\<lparr> now := t \<rparr>)"
    have "\<exists>w'. exec (schedule d (u # q @ [t + d]) ts) ?w1 = Some w' \<and> timers w' = [] \<and>
        on_time (schedule d (u # q @ [t + d]) ts) ?w1"
    proof (rule "4.IH"(2) [OF False])
      show "one_closure ?w1" by (rule one_closure_FsEvent [OF "4.prems"(1) s])
      show "in_window ?w1" by (rule in_window_FsEvent [OF "4.prems"(1,2) s])
      show "none_overdue ?w1" by (rule none_overdue_FsEvent [OF le])
      show "setTimeout_delay (minimumDelayMS ?w1) = d" using "4.prems"(4) by simp
      show "map fst (timers ?w1) = u # q @ [t + d]"
        using "4.prems"(4,5) by (simp add: on_fs_event_def)
      show "sorted ts" using "4.prems"(6) by simp
      show "\<forall>t' \<in> set ts. now ?w1 \<le> t'" using "4.prems"(6) by simp
    qed
    with s le False show ?thesis by simp
  qed
qed

lemma a_schedule_exists:
  assumes "sorted ts"
  shows "\<exists>xs w'. loop_tasks xs \<and> fs_times xs = ts \<and>
    on_time (Watch # xs) (new_Watcher options) \<and>
    exec (Watch # xs) (new_Watcher options) = Some w' \<and> timers w' = []"
proof -
  let ?w0 = "watch (new_Watcher options)"
  let ?xs = "schedule (setTimeout_delay (minimumDelayMS ?w0)) [] ts"
  have "\<exists>w'. exec ?xs ?w0 = Some w' \<and> timers w' = [] \<and> on_time ?xs ?w0"
  proof (rule schedule_runs [OF one_closure_watch_new in_window_watch_new
        none_overdue_watch_new refl _ assms])
    show "map fst (timers ?w0) = []" by (simp add: watch_def new_Watcher_def Let_def)
    show "\<forall>t \<in> set ts. now ?w0 \<le> t" by (simp add: watch_def new_Watcher_def Let_def)
  qed
  then obtain w' where "exec (Watch # ?xs) (new_Watcher options) = Some w'" "timers w' = []"
    "on_time (Watch # ?xs) (new_Watcher options)"
    by auto
  with loop_tasks_schedule fs_times_schedule show ?thesis by blast
qed

text \<open>
  C1, amended. Let the Watcher be started with a \<open>minimumDelayMS\<close> of at most 2147483647
  (a delay that \<open>setTimeout\<close> takes as it is), and let raw events arrive, each less than
  \<open>minimumDelayMS\<close> after the one before it. There is a schedule that runs every callback
  at its due time, and whatever the schedule, once every callback has run exactly one
  notification has been dispatched: no earlier than the time of the last raw event plus
  \<open>minimumDelayMS\<close>, and exactly then when the callbacks run on time.
\<close>

theorem one_burst_one_notification:
  assumes "ts \<noteq> []" and "sorted ts"
    and "minimumDelayMS (new_Watcher options) \<le> 2147483647"
    and "gaps_below (minimumDelayMS (new_Watcher options)) ts"
  shows "(\<exists>xs w'. loop_tasks xs \<and> fs_times xs = ts \<and>
      on_time (Watch # xs) (new_Watcher options) \<and>
      exec (Watch # xs) (new_Watcher options) = Some w' \<and> timers w' = []) \<and>
    (\<forall>xs w'. loop_tasks xs \<and> fs_times xs = ts \<and>
      exec (Watch # xs) (new_Watcher options) = Some w' \<and> timers w' = [] \<longrightarrow>
        (\<exists>r. dispatched w' = [r] \<and>
          last ts + minimumDelayMS (new_Watcher options) \<le> r \<and>
          (on_time (Watch # xs) (new_Watcher options) \<longrightarrow>
             r = last ts + minimumDelayMS (new_Watcher options))))"
proof (intro conjI allI impI)
  show "\<exists>xs w'. loop_tasks xs \<and> fs_times xs = ts \<and>
      on_time (Watch # xs) (new_Watcher options) \<and>
      exec (Watch # xs) (new_Watcher options) = Some w' \<and> timers w' = []"
    by (rule a_schedule_exists [OF assms(2)])
next
  fix xs w'
  assume "loop_tasks xs \<and> fs_times xs = ts \<and>
      exec (Watch # xs) (new_Watcher options) = Some w' \<and> timers w' = []"
  then have run: "exec (Watch # xs) (new_Watcher options) = Some w'" "timers w' = []"
    "loop_tasks xs" and ts: "fs_times xs = ts"
    by simp_all
  from assms(1,3,4) ts have "fs_times xs \<noteq> []"
    "minimumDelayMS (new_Watcher options) \<le> 2147483647"
    "gaps_below (minimumDelayMS (new_Watcher options)) (fs_times xs)"
    by simp_all
  with run have "\<exists>r. dispatched w' = [r] \<and>
    last (fs_times xs) + minimumDelayMS (new_Watcher options) \<le> r \<and>
    (on_time (Watch # xs) (new_Watcher options) \<longrightarrow>
       r = last (fs_times xs) + minimumDelayMS (new_Watcher options))"
    by (rule burst_notification)
  with ts show "\<exists>r. dispatched w' = [r] \<and>
    last ts + minimumDelayMS (new_Watcher options) \<le> r \<and>
    (on_time (Watch # xs) (new_Watcher options) \<longrightarrow>
       r = last ts + minimumDelayMS (new_Watcher options))"
    by simp
qed

theorem one_burst_one_notification_witness:
  "sorted [0, 50, 120 :: nat] \<and> gaps_below 200 [0, 50, 120] \<and>
   minimumDelayMS (new_Watcher \<lparr> opt_directories = [js ''site''], opt_abortSignal = None,
        opt_minimumDelayMS = None \<rparr>) \<le> 2147483647 \<and>
   on_time
     [Watch, FsEvent 0, FsEvent 50, FsEvent 120, Timeout 200, Timeout 250, Timeout 320]
     (new_Watcher \<lparr> opt_directories = [js ''site''], opt_abortSignal = None,
        opt_minimumDelayMS = None \<rparr>) \<and>
   dispatched (the (exec
     [Watch, FsEvent 0, FsEvent 50, FsEvent 120, Timeout 200, Timeout 250, Timeout 320]
     (new_Watcher \<lparr> opt_directories = [js ''site''], opt_abortSignal = None,
        opt_minimumDelayMS = None \<rparr>))) = [320]"
proof -
  let ?o = "\<lparr> opt_directories = [js ''site''], opt_abortSignal = None, opt_minimumDelayMS = None \<rparr>"
  let ?xs = "[FsEvent 0, FsEvent 50, FsEvent 120, Timeout 200, Timeout 250, Timeout 320]"
  have "\<exists>w'. exec (Watch # ?xs) (new_Watcher ?o) = Some w' \<and> timers w' = []"
    by (simp add: new_Watcher_def watch_def on_fs_event_def update_def setTimeout_delay_def Let_def)
  then obtain w' where run: "exec (Watch # ?xs) (new_Watcher ?o) = Some w'" and fin: "timers w' = []"
    by blast
  have punctual: "on_time (Watch # ?xs) (new_Watcher ?o)"
    by (simp add: new_Watcher_def watch_def on_fs_event_def update_def setTimeout_delay_def Let_def)
  have d: "minimumDelayMS (new_Watcher ?o) = 200"
    by (simp add: new_Watcher_def)
  have "[0, 50, 120 :: nat] \<noteq> []" "sorted [0, 50, 120 :: nat]"
    "minimumDelayMS (new_Watcher ?o) \<le> 2147483647"
    "gaps_below (minimumDelayMS (new_Watcher ?o)) [0, 50, 120]"
    by (simp_all add: d)
  from one_burst_one_notification [OF this]
  have every: "\<forall>xs w'. loop_tasks xs \<and> fs_times xs = [0, 50, 120] \<and>
      exec (Watch # xs) (new_Watcher ?o) = Some w' \<and> timers w' = [] \<longrightarrow>
        (\<exists>r. dispatched w' = [r] \<and>
          last [0, 50, 120] + minimumDelayMS (new_Watcher ?o) \<le> r \<and>
          (on_time (Watch # xs) (new_Watcher ?o) \<longrightarrow>
             r = last [0, 50, 120] + minimumDelayMS (new_Watcher ?o)))"
    by (rule conjunct2)
  have "loop_tasks ?xs" "fs_times ?xs = [0, 50, 120]"
    by (simp_all add: loop_tasks_def)
  with every run fin punctual
  have "dispatched w' = [last [0, 50, 120] + minimumDelayMS (new_Watcher ?o)]"
    by blast
  with run d punctual show ?thesis by simp
qed

text \<open>
  C1 as stated allows a gap of exactly \<open>minimumDelayMS\<close>. With the delay 200 and raw
  events at 0 and 200, the callback due at 200 may run, on time, before the loop body
  for the second event: the counter goes from 1 to 0, and notifications are dispatched
  at 200 and at 400.
\<close>

theorem boundary_gap_counterexample:
  "sorted (fs_times [FsEvent 0, Timeout 200, FsEvent 200, Timeout 400]) \<and>
   gaps_at_most 200 (fs_times [FsEvent 0, Timeout 200, FsEvent 200, Timeout 400]) \<and>
   loop_tasks [FsEvent 0, Timeout 200, FsEvent 200, Timeout 400] \<and>
   on_time [Watch, FsEvent 0, Timeout 200, FsEvent 200, Timeout 400]
     (new_Watcher \<lparr> opt_directories = [js ''site''], opt_abortSignal = None,
        opt_minimumDelayMS = Some 200 \<rparr>) \<and>
   map_option timers (exec [Watch, FsEvent 0, Timeout 200, FsEvent 200, Timeout 400]
     (new_Watcher \<lparr> opt_directories = [js ''site''], opt_abortSignal = None,
        opt_minimumDelayMS = Some 200 \<rparr>)) = Some [] \<and>
   map_option dispatched (exec [Watch, FsEvent 0, Timeout 200, FsEvent 200, Timeout 400]
     (new_Watcher \<lparr> opt_directories = [js ''site''], opt_abortSignal = None,
        opt_minimumDelayMS = Some 200 \<rparr>)) = Some [200, 400]"
  by (simp add: loop_tasks_def new_Watcher_def watch_def on_fs_event_def update_def
      setTimeout_delay_def Let_def)

text \<open>
  The bound on \<open>minimumDelayMS\<close> is needed. With the delay 2147483648 and raw events at
  52 and 105, less than the delay apart, each callback is due one millisecond after its
  event, and run on time the two callbacks dispatch two notifications, at 53 and at 106.
\<close>

lemma delay_out_of_range_run:
  "gaps_below 2147483648 (fs_times [FsEvent 52, Timeout 53, FsEvent 105, Timeout 106]) \<and>
   loop_tasks [FsEvent 52, Timeout 53, FsEvent 105, Timeout 106] \<and>
   on_time [Watch, FsEvent 52, Timeout 53, FsEvent 105, Timeout 106]
     (new_Watcher \<lparr> opt_directories = [js ''site''], opt_abortSignal = None,
        opt_minimumDelayMS = Some 2147483648 \<rparr>) \<and>
   map_option timers (exec [Watch, FsEvent 52, Timeout 53, FsEvent 105, Timeout 106]
     (new_Watcher \<lparr> opt_directories = [js ''site''], opt_abortSignal = None,
        opt_minimumDelayMS = Some 2147483648 \<rparr>)) = Some [] \<and>
   map_option dispatched (exec [Watch, FsEvent 52, Timeout 53, FsEvent 105, Timeout 106]
     (new_Watcher \<lparr> opt_directories = [js ''site''], opt_abortSignal = None,
        opt_minimumDelayMS = Some 2147483648 \<rparr>)) = Some [53, 106]"
  by (simp add: loop_tasks_def new_Watcher_def watch_def on_fs_event_def update_def
      setTimeout_delay_def Let_def)

section \<open>Watcher: distant events\<close>






section \<open>String methods\<close>

lemma endsWith_iff: "endsWith s x \<longleftrightarrow> (\<exists>pre. s = pre @ x)"
proof
  assume "endsWith s x"
  then have le: "length x \<le> length s" and d: "drop (length s - length x) s = x"
    by (auto simp: endsWith_def Let_def nat_diff_distrib' split: if_splits)
  have "s = take (length s - length x) s @ drop (length s - length x) s"
    by simp
  with d show "\<exists>pre. s = pre @ x" by metis
next
  assume "\<exists>pre. s = pre @ x"
  then obtain pre where "s = pre @ x" by blast
  then show "endsWith s x"
    by (simp add: endsWith_def Let_def)
qed

lemma lastIndexOf_loop_result:
  "(lastIndexOf_loop s p n = - 1 \<and> (\<forall>j \<le> n. take (length p) (drop j s) \<noteq> p)) \<or>
   (\<exists>i \<le> n. lastIndexOf_loop s p n = int i \<and> take (length p) (drop i s) = p \<and>
      (\<forall>j. i < j \<and> j \<le> n \<longrightarrow> take (length p) (drop j s) \<noteq> p))"
proof (induction n)
  case 0
  show ?case by simp
next
  case (Suc n)
  show ?case
  proof (cases "take (length p) (drop (Suc n) s) = p")
    case True
    then show ?thesis by auto
  next
    case False
    from Suc show ?thesis
    proof
      assume "lastIndexOf_loop s p n = - 1 \<and> (\<forall>j \<le> n. take (length p) (drop j s) \<noteq> p)"
      with False show ?thesis by (auto simp: le_Suc_eq)
    next
      assume "\<exists>i \<le> n. lastIndexOf_loop s p n = int i \<and> take (length p) (drop i s) = p \<and>
        (\<forall>j. i < j \<and> j \<le> n \<longrightarrow> take (length p) (drop j s) \<noteq> p)"
      then obtain i where "i \<le> n" "lastIndexOf_loop s p n = int i"
        "take (length p) (drop i s) = p"
        "\<forall>j. i < j \<and> j \<le> n \<longrightarrow> take (length p) (drop j s) \<noteq> p"
        by blast
      with False have "i \<le> Suc n \<and> lastIndexOf_loop s p (Suc n) = int i \<and>
        take (length p) (drop i s) = p \<and>
        (\<forall>j. i < j \<and> j \<le> Suc n \<longrightarrow> take (length p) (drop j s) \<noteq> p)"
        by (auto simp: le_Suc_eq)
      then show ?thesis by blast
    qed
  qed
qed

lemma occurs_at_bound: "occurs_at p s j \<Longrightarrow> length p \<le> length s \<and> j \<le> length s - length p"
  by (auto simp: occurs_at_def)

lemma lastIndexOf_cases:
  "(lastIndexOf s p = - 1 \<and> (\<forall>j. \<not> occurs_at p s j)) \<or>
   (\<exists>i. lastIndexOf s p = int i \<and> occurs_at p s i \<and> (\<forall>j. occurs_at p s j \<longrightarrow> j \<le> i))"
proof (cases "length p \<le> length s")
  case False
  then show ?thesis
    by (auto simp: lastIndexOf_def Let_def occurs_at_def)
next
  case True
  let ?n = "length s - length p"
  from True have l: "lastIndexOf s p = lastIndexOf_loop s p ?n"
    by (simp add: lastIndexOf_def Let_def nat_diff_distrib')
  from lastIndexOf_loop_result [of s p ?n] show ?thesis
  proof
    assume a: "lastIndexOf_loop s p ?n = - 1 \<and> (\<forall>j \<le> ?n. take (length p) (drop j s) \<noteq> p)"
    have "\<not> occurs_at p s j" for j
    proof
      assume o: "occurs_at p s j"
      then have "j \<le> ?n" by (simp add: occurs_at_bound)
      with a o show False by (simp add: occurs_at_def)
    qed
    with a l show ?thesis by simp
  next
    assume "\<exists>i \<le> ?n. lastIndexOf_loop s p ?n = int i \<and> take (length p) (drop i s) = p \<and>
      (\<forall>j. i < j \<and> j \<le> ?n \<longrightarrow> take (length p) (drop j s) \<noteq> p)"
    then obtain i where i: "i \<le> ?n" "lastIndexOf_loop s p ?n = int i"
      "take (length p) (drop i s) = p"
      and later: "\<forall>j. i < j \<and> j \<le> ?n \<longrightarrow> take (length p) (drop j s) \<noteq> p"
      by blast
    from i True have o: "occurs_at p s i" by (simp add: occurs_at_def)
    have "j \<le> i" if oj: "occurs_at p s j" for j
    proof (rule ccontr)
      assume "\<not> j \<le> i"
      moreover from oj have "j \<le> ?n" by (simp add: occurs_at_bound)
      ultimately have "take (length p) (drop j s) \<noteq> p" using later by simp
      with oj show False by (simp add: occurs_at_def)
    qed
    with i l o show ?thesis by auto
  qed
qed

lemma substr_take: "i \<le> length s \<Longrightarrow> substr s 0 (Some (int i)) = take i s"
  by (simp add: substr_def Let_def min_def)

lemma substr_drop: "i \<le> length s \<Longrightarrow> substr s (int i) None = drop i s"
  by (simp add: substr_def Let_def min_def nat_diff_distrib')

lemma insert_reload_script_found:
  assumes "occurs_at (js ''</body>'') text i" "\<forall>j. occurs_at (js ''</body>'') text j \<longrightarrow> j \<le> i"
  shows "insert_reload_script srv text = take i text @ reloadScript srv @ drop i text"
proof -
  from lastIndexOf_cases [of "text" "js ''</body>''"] assms(1)
  obtain k where k: "lastIndexOf text (js ''</body>'') = int k" "occurs_at (js ''</body>'') text k"
    "\<forall>j. occurs_at (js ''</body>'') text j \<longrightarrow> j \<le> k"
    by blast
  with assms have "k = i" by (simp add: le_antisym)
  moreover from assms(1) have "i \<le> length text" by (simp add: occurs_at_def)
  ultimately show ?thesis
    using k(1) by (simp add: insert_reload_script_def Let_def substr_take substr_drop)
qed

lemma insert_reload_script_absent:
  assumes "\<forall>j. \<not> occurs_at (js ''</body>'') text j"
  shows "insert_reload_script srv text = text @ reloadScript srv"
proof -
  from lastIndexOf_cases [of "text" "js ''</body>''"] assms
  have "lastIndexOf text (js ''</body>'') = - 1" by blast
  then show ?thesis by (simp add: insert_reload_script_def Let_def)
qed

lemma insert_reload_script_spec:
  "if \<exists>i. occurs_at (js ''</body>'') text i
   then \<exists>i. occurs_at (js ''</body>'') text i \<and>
     (\<forall>j. occurs_at (js ''</body>'') text j \<longrightarrow> j \<le> i) \<and>
     insert_reload_script srv text = take i text @ reloadScript srv @ drop i text
   else insert_reload_script srv text = text @ reloadScript srv"
proof (cases "\<exists>i. occurs_at (js ''</body>'') text i")
  case False
  then show ?thesis by (simp add: insert_reload_script_absent)
next
  case True
  with lastIndexOf_cases [of "text" "js ''</body>''"]
  obtain k where k: "occurs_at (js ''</body>'') text k"
    "\<forall>j. occurs_at (js ''</body>'') text j \<longrightarrow> j \<le> k"
    by blast
  then have "insert_reload_script srv text = take k text @ reloadScript srv @ drop k text"
    by (rule insert_reload_script_found)
  with k True show ?thesis by auto
qed

section \<open>Handling one request\<close>

lemma try_body_file:
  assumes "\<not> (watcher srv \<noteq> None \<and> pathname = reloadEventPath srv)"
  shows "try_body srv pf pathname =
    (case readFile pf (resolve_path srv pathname) of
       Inl e \<Rightarrow> (srv, [], Some e)
     | Inr content \<Rightarrow>
         if watcher srv \<noteq> None \<and> endsWith (resolve_path srv pathname) (js ''.html'') then
           (case decode pf content of
              Inl e \<Rightarrow> (srv, [], Some e)
            | Inr text \<Rightarrow>
                respond pf srv \<lparr> body = encode pf (insert_reload_script srv text), status = 200 \<rparr>)
         else respond pf srv \<lparr> body = content, status = 200 \<rparr>)"
proof -
  from assms have "(watcher srv \<noteq> None \<and> pathname = reloadEventPath srv) = False"
    by simp
  then show ?thesis
    unfolding try_body_def Let_def by (simp only: if_False)
qed

lemma try_body_readFile:
  assumes "f (resolve_path srv pathname) = readFile pf (resolve_path srv pathname)"
  shows "try_body srv (pf\<lparr> readFile := f \<rparr>) pathname = try_body srv pf pathname"
  using assms
  by (auto simp: try_body_def respond_def Let_def split: sum.splits prod.splits)

lemma serve_request_respond:
  assumes "try_body srv pf pathname = respond pf srv' r"
  shows "first_response (serve_request srv pf pathname) = Some r"
    and "server (serve_request srv pf pathname) = srv'"
  using assms
  by (simp_all add: serve_request_def respond_def first_response_def split: sum.splits)

lemma serve_request_thrown:
  assumes "try_body srv pf pathname = (srv', [], Some e)"
  shows "responses (serve_request srv pf pathname) = [\<lparr> body = [], status = 404 \<rparr>]"
    and "server (serve_request srv pf pathname) = srv'"
  using assms by (simp_all add: serve_request_def)

section \<open>The array of clients\<close>

lemma indexOf_loop_absent: "x \<notin> set xs \<Longrightarrow> indexOf_loop xs x k = - 1"
  by (induction xs arbitrary: k) auto

lemma indexOf_loop_found:
  "x \<in> set xs \<Longrightarrow>
   \<exists>i < length xs. indexOf_loop xs x k = int (k + i) \<and> xs ! i = x \<and> x \<notin> set (take i xs)"
proof (induction xs arbitrary: k)
  case Nil
  then show ?case by simp
next
  case (Cons y ys)
  show ?case
  proof (cases "y = x")
    case True
    then have "indexOf_loop (y # ys) x k = int (k + 0) \<and> (y # ys) ! 0 = x \<and>
        x \<notin> set (take 0 (y # ys))"
      by simp
    then show ?thesis by blast
  next
    case False
    with Cons.prems have "x \<in> set ys" by simp
    from Cons.IH [OF this, of "Suc k"] obtain i where i: "i < length ys"
      "indexOf_loop ys x (Suc k) = int (Suc k + i)" "ys ! i = x" "x \<notin> set (take i ys)"
      by blast
    with False have "Suc i < length (y # ys) \<and> indexOf_loop (y # ys) x k = int (k + Suc i) \<and>
        (y # ys) ! Suc i = x \<and> x \<notin> set (take (Suc i) (y # ys))"
      by simp
    then show ?thesis by blast
  qed
qed

lemma take_drop_remove1:
  "i < length xs \<Longrightarrow> xs ! i = x \<Longrightarrow> x \<notin> set (take i xs) \<Longrightarrow>
   take i xs @ drop (Suc i) xs = remove1 x xs"
proof (induction xs arbitrary: i)
  case Nil
  then show ?case by simp
next
  case (Cons y ys)
  then show ?case by (cases i) auto
qed

lemma splice_indexOf:
  assumes "x \<in> set xs"
  shows "splice xs (indexOf xs x) 1 = remove1 x xs"
proof -
  from indexOf_loop_found [OF assms, of 0] obtain i where i: "i < length xs"
    "indexOf xs x = int i" "xs ! i = x" "x \<notin> set (take i xs)"
    by (auto simp: indexOf_def)
  have "splice xs (int i) 1 = take i xs @ drop (Suc i) xs"
    using i(1) by (simp add: splice_def Let_def min_def nat_add_distrib)
  with i show ?thesis by (simp add: take_drop_remove1)
qed

text \<open>
  For an element that is not in the array \<open>indexOf\<close> answers -1, and \<open>splice\<close> then
  takes the last element away.
\<close>

lemma splice_indexOf_absent:
  assumes "x \<notin> set xs"
  shows "splice xs (indexOf xs x) 1 = butlast xs"
proof (cases "xs = []")
  case True
  then show ?thesis by (simp add: splice_def indexOf_def)
next
  case False
  then have "nat (int (length xs) - 1) = length xs - 1" "0 < length xs"
    by simp_all
  with assms show ?thesis
    by (simp add: splice_def indexOf_def indexOf_loop_absent Let_def butlast_conv_take)
qed

lemma on_close_registered:
  "socket \<in> set (reloadClients srv) \<Longrightarrow>
   reloadClients (on_close srv socket) = remove1 socket (reloadClients srv)"
  by (simp add: on_close_def splice_indexOf)

lemma serve_request_server:
  "server (serve_request srv pf pathname) =
     (case upgraded srv pf pathname of
        None \<Rightarrow> srv
      | Some socket \<Rightarrow> srv\<lparr> reloadClients := reloadClients srv @ [socket] \<rparr>)"
  by (auto simp: serve_request_def try_body_def respond_def upgraded_def Let_def
      split: sum.splits prod.splits option.splits)

lemma same_config_upgraded:
  "same_config cfg srv \<Longrightarrow> upgraded cfg pf pathname = upgraded srv pf pathname"
  by (auto simp: same_config_def upgraded_def)

lemma send_loop_sockets: "map fst (send_loop send xs) = xs"
  by (induction xs) (simp_all split: sum.splits)

lemma server_step_facts:
  assumes "same_config cfg srv" "server_step e srv = Some (srv', sent)"
  shows "same_config cfg srv'" and "fst ` set sent \<subseteq> set (reloadClients srv)"
    and "reloadClients srv' =
      (case e of
         Request pf pathname \<Rightarrow>
           (case upgraded cfg pf pathname of
              None \<Rightarrow> reloadClients srv
            | Some socket \<Rightarrow> reloadClients srv @ [socket])
       | Close socket \<Rightarrow> reloadClients (on_close srv socket)
       | WatcherTask x send \<Rightarrow> reloadClients srv)"
proof -
  show "same_config cfg srv'"
    using assms
    by (cases e)
      (auto simp: same_config_def serve_request_server on_close_def on_updated_def
        split: option.splits if_splits)
  show "fst ` set sent \<subseteq> set (reloadClients srv)"
  proof (cases e)
    case (WatcherTask x send)
    with assms(2) have "sent = [] \<or> sent = send_loop send (reloadClients srv)"
      by (auto simp: on_updated_def split: option.splits if_splits)
    then show ?thesis
      using send_loop_sockets [of send "reloadClients srv"] by (auto simp flip: set_map)
  qed (use assms(2) in auto)
  show "reloadClients srv' =
      (case e of
         Request pf pathname \<Rightarrow>
           (case upgraded cfg pf pathname of
              None \<Rightarrow> reloadClients srv
            | Some socket \<Rightarrow> reloadClients srv @ [socket])
       | Close socket \<Rightarrow> reloadClients (on_close srv socket)
       | WatcherTask x send \<Rightarrow> reloadClients srv)"
    using assms same_config_upgraded [OF assms(1)]
    by (cases e)
      (auto simp: serve_request_server on_updated_def split: option.splits if_splits)
qed

lemma track_append:
  "track cfg (es1 @ es2) lu =
     (case track cfg es1 lu of None \<Rightarrow> None | Some lu' \<Rightarrow> track cfg es2 lu')"
proof (induction es1 arbitrary: lu)
  case Nil
  show ?case by simp
next
  case (Cons e es1)
  obtain live used where lu: "lu = (live, used)" by (cases lu)
  show ?case
    by (cases e) (simp_all add: lu Cons.IH split: option.splits)
qed

lemma server_exec_append:
  "server_exec (es1 @ es2) srv =
     (case server_exec es1 srv of
        None \<Rightarrow> None
      | Some (srv1, sent1) \<Rightarrow>
          (case server_exec es2 srv1 of
             None \<Rightarrow> None
           | Some (srv2, sent2) \<Rightarrow> Some (srv2, sent1 @ sent2)))"
  by (induction es1 arbitrary: srv) (auto split: option.splits prod.splits)

lemma track_exec:
  assumes "same_config cfg srv" "track cfg es (live, used) = Some (live', used')"
    and "reloadClients srv = live" "distinct live" "set live \<subseteq> set used"
    and "server_exec es srv = Some (srv', sent)"
  shows "reloadClients srv' = live' \<and> distinct live' \<and> set live' \<subseteq> set used' \<and>
    set used \<subseteq> set used' \<and> set live' \<subseteq> set live \<union> (set used' - set used) \<and>
    fst ` set sent \<subseteq> set live \<union> (set used' - set used) \<and> same_config cfg srv'"
  using assms
proof (induction es arbitrary: srv live used sent)
  case Nil
  then show ?case by simp
next
  case (Cons e es)
  from Cons.prems(6) obtain srv1 sent1 sent2 where
    s: "server_step e srv = Some (srv1, sent1)" and
    x: "server_exec es srv1 = Some (srv', sent2)" and sent: "sent = sent1 @ sent2"
    by (auto split: option.splits prod.splits)
  note f = server_step_facts [OF Cons.prems(1) s]
  from f(2) Cons.prems(3) have s1: "fst ` set sent1 \<subseteq> set live" by simp
  show ?case
  proof (cases e)
    case (Request pf pathname)
    show ?thesis
    proof (cases "upgraded cfg pf pathname")
      case None
      with Request Cons.prems(2) have t: "track cfg es (live, used) = Some (live', used')"
        by simp
      from f(3) Request None Cons.prems(3) have c: "reloadClients srv1 = live" by simp
      from Cons.IH [OF f(1) t c Cons.prems(4,5) x] s1 sent show ?thesis by auto
    next
      case (Some socket)
      with Request Cons.prems(2) have new: "socket \<notin> set used"
        and t: "track cfg es (live @ [socket], socket # used) = Some (live', used')"
        by (simp_all split: if_splits)
      from f(3) Request Some Cons.prems(3) have c: "reloadClients srv1 = live @ [socket]"
        by simp
      from new Cons.prems(4,5) have d: "distinct (live @ [socket])"
        and u: "set (live @ [socket]) \<subseteq> set (socket # used)"
        by auto
      from Cons.IH [OF f(1) t c d u x] s1 sent new show ?thesis by auto
    qed
  next
    case (Close socket)
    with Cons.prems(2) have inl: "socket \<in> set live"
      and t: "track cfg es (remove1 socket live, used) = Some (live', used')"
      by (simp_all split: if_splits)
    from f(3) Close Cons.prems(3) inl have c: "reloadClients srv1 = remove1 socket live"
      by (simp add: on_close_registered)
    from Cons.prems(4,5) have d: "distinct (remove1 socket live)"
      and u: "set (remove1 socket live) \<subseteq> set used"
      by (auto dest: notin_set_remove1)
    from Cons.IH [OF f(1) t c d u x] s1 sent show ?thesis
      by (auto dest: notin_set_remove1)
  next
    case (WatcherTask task send)
    with Cons.prems(2) have t: "track cfg es (live, used) = Some (live', used')"
      by simp
    from f(3) WatcherTask Cons.prems(3) have c: "reloadClients srv1 = live" by simp
    from Cons.IH [OF f(1) t c Cons.prems(4,5) x] s1 sent show ?thesis by auto
  qed
qed

section \<open>The example site\<close>

lemma lastIndexOf_loop_unfold:
  "lastIndexOf_loop s p n =
     (if take (length p) (drop n s) = p then int n
      else if n = 0 then - 1 else lastIndexOf_loop s p (n - 1))"
  by (cases n) simp_all

lemma decimal_8888: "decimal 8888 = ''8888''"
  by (simp add: decimal.simps [of 8888] decimal.simps [of 888] decimal.simps [of 88]
      decimal.simps [of 8])

lemma example_server_fields:
  "root example_server = js ''site''"
  "reloadEventPath example_server = js ''/.watch_n_serve/events''"
  "watcher example_server \<noteq> None"
  "reloadClients example_server = []"
  "reloadScript example_server =
     js ''<script>(new WebSocket('' @ dquote @
     js ''ws://localhost:8888/.watch_n_serve/events'' @ dquote @
     js '')).addEventListener('' @ dquote @ js ''message'' @ dquote @
     js '', function (event) { window.location.reload(); });</script>''"
  by (simp_all add: example_server_def serve_def new_Server_def Let_def decimal_8888 js_def)

lemma example_lastIndexOf:
  "lastIndexOf (js ''<html><body>hi</body></html>'') (js ''</body>'') = 14"
  by (simp add: lastIndexOf_def js_def lastIndexOf_loop_unfold)

lemma example_decode:
  "map ucast (ascii ''<html><body>hi</body></html>'') = js ''<html><body>hi</body></html>''"
  by (simp add: ascii_def js_def)

lemma example_paths:
  "resolve_path example_server (js ''/'') = js ''site/index.html''"
  "resolve_path example_server (js ''/style.css'') = js ''site/style.css''"
  "resolve_path example_server (js ''/missing.html'') = js ''site/missing.html''"
  unfolding resolve_path_def example_server_fields by (simp_all add: endsWith_def js_def)

lemma example_not_events:
  "\<not> (watcher example_server \<noteq> None \<and> js ''/'' = reloadEventPath example_server)"
  "\<not> (watcher example_server \<noteq> None \<and> js ''/style.css'' = reloadEventPath example_server)"
  "\<not> (watcher example_server \<noteq> None \<and> js ''/missing.html'' = reloadEventPath example_server)"
  unfolding example_server_fields by (simp_all add: js_def)

lemma example_watcher:
  "watcher example_server =
     Some (watch (new_Watcher \<lparr> opt_directories = [js ''site''], opt_abortSignal = None,
       opt_minimumDelayMS = None \<rparr>))"
  by (simp add: example_server_def serve_def new_Server_def Let_def)

lemma example_upgraded:
  "upgraded (example_server\<lparr> reloadClients := xs \<rparr>)
     (example_platform (Inr (socket, r))) (js ''/.watch_n_serve/events'') = Some socket"
  "upgraded example_server
     (example_platform (Inr (socket, r))) (js ''/.watch_n_serve/events'') = Some socket"
  by (simp_all add: upgraded_def example_platform_def example_server_fields)

section \<open>Server: resolving the path\<close>

text \<open>
  C4. The path that is read is the root followed by the path of the URL, with
  \<open>index.html\<close> appended when that path ends in a slash and unchanged otherwise: \<open>/\<close>
  gives \<open>index.html\<close> under the root and \<open>/foo/\<close> gives \<open>foo/index.html\<close> under the root.
  The handler asks the file system for that path and for no other.
\<close>

theorem resolve_path_index:
  "resolve_path srv (js ''/'') = root srv @ js ''/index.html'' \<and>
   resolve_path srv (js ''/foo/'') = root srv @ js ''/foo/index.html'' \<and>
   (endsWith pathname (js ''/'') \<longrightarrow>
      resolve_path srv pathname = root srv @ pathname @ js ''index.html'') \<and>
   (\<not> endsWith pathname (js ''/'') \<longrightarrow> resolve_path srv pathname = root srv @ pathname) \<and>
   (endsWith pathname (js ''/'') \<longleftrightarrow> (\<exists>pre. pathname = pre @ js ''/'')) \<and>
   (\<forall>f. f (resolve_path srv pathname) = readFile pf (resolve_path srv pathname) \<longrightarrow>
      serve_request srv (pf\<lparr> readFile := f \<rparr>) pathname = serve_request srv pf pathname)"
proof -
  have "resolve_path srv (js ''/'') = root srv @ js ''/index.html''"
    "resolve_path srv (js ''/foo/'') = root srv @ js ''/foo/index.html''"
    by (simp_all add: resolve_path_def endsWith_def js_def)
  moreover have "serve_request srv (pf\<lparr> readFile := f \<rparr>) pathname = serve_request srv pf pathname"
    if "f (resolve_path srv pathname) = readFile pf (resolve_path srv pathname)" for f
    using that by (simp add: serve_request_def try_body_readFile)
  ultimately show ?thesis
    by (simp add: resolve_path_def endsWith_iff)
qed

theorem resolve_path_index_witness:
  "endsWith (js ''/docs/'') (js ''/'') \<and>
   resolve_path (new_Server \<lparr> opt_root = js ''site'', opt_port = None, opt_hostName = None,
      opt_watch = Some True \<rparr>) (js ''/docs/'') = js ''site/docs/index.html'' \<and>
   \<not> endsWith (js ''/style.css'') (js ''/'') \<and>
   resolve_path (new_Server \<lparr> opt_root = js ''site'', opt_port = None, opt_hostName = None,
      opt_watch = Some True \<rparr>) (js ''/style.css'') = js ''site/style.css'' \<and>
   serve_request example_server
     ((example_platform (Inl UpgradeError))
        \<lparr> readFile := \<lambda>path. if path = js ''site/style.css'' then Inr (ascii ''p { }'')
                            else Inl PermissionDenied \<rparr>)
     (js ''/style.css'') =
   serve_request example_server (example_platform (Inl UpgradeError)) (js ''/style.css'')"
proof -
  let ?srv = "new_Server \<lparr> opt_root = js ''site'', opt_port = None, opt_hostName = None,
      opt_watch = Some True \<rparr>"
  have r: "root ?srv = js ''site''" by (simp add: new_Server_def Let_def)
  have a: "endsWith (js ''/docs/'') (js ''/'')" and b: "\<not> endsWith (js ''/style.css'') (js ''/'')"
    by (simp_all add: endsWith_def js_def)
  from a resolve_path_index [of ?srv "js ''/docs/''"]
  have "resolve_path ?srv (js ''/docs/'') = root ?srv @ js ''/docs/'' @ js ''index.html''"
    by blast
  moreover from b resolve_path_index [of ?srv "js ''/style.css''"]
  have "resolve_path ?srv (js ''/style.css'') = root ?srv @ js ''/style.css''"
    by blast
  ultimately have paths: "resolve_path ?srv (js ''/docs/'') = js ''site/docs/index.html''"
    "resolve_path ?srv (js ''/style.css'') = js ''site/style.css''"
    unfolding r by (simp_all add: js_def)
  let ?pf = "example_platform (Inl UpgradeError)"
  let ?f = "\<lambda>path. if path = js ''site/style.css'' then Inr (ascii ''p { }'')
                            else Inl PermissionDenied"
  have "?f (resolve_path example_server (js ''/style.css'')) =
      readFile ?pf (resolve_path example_server (js ''/style.css''))"
    unfolding example_paths by (simp add: example_platform_def example_site_def js_def)
  then have "serve_request example_server (?pf\<lparr> readFile := ?f \<rparr>) (js ''/style.css'') =
      serve_request example_server ?pf (js ''/style.css'')"
    by (rule resolve_path_index [of example_server "js ''/style.css''" ?pf,
          THEN conjunct2, THEN conjunct2, THEN conjunct2, THEN conjunct2, THEN conjunct2,
          rule_format])
  with paths a b show ?thesis by simp
qed

section \<open>Server: the reload script\<close>

text \<open>
  C3. Let a request for a file be read with success. If the server watches, the resolved
  path ends in \<open>.html\<close> and the content decodes to a text, the response has status 200
  and its body encodes that text with the reload script inserted once: right before the
  last \<open></body>\<close> if the text has one, at the end otherwise. If the path does not end in
  \<open>.html\<close>, or the server does not watch, the body is the content of the file.
\<close>

theorem html_gets_reload_script:
  assumes "\<not> (watcher srv \<noteq> None \<and> pathname = reloadEventPath srv)"
    and "readFile pf (resolve_path srv pathname) = Inr content"
  shows "(watcher srv \<noteq> None \<and> endsWith (resolve_path srv pathname) (js ''.html'') \<and>
      decode pf content = Inr text \<longrightarrow>
        (\<exists>out. first_response (serve_request srv pf pathname) =
             Some \<lparr> body = encode pf out, status = 200 \<rparr> \<and>
           (if \<exists>i. occurs_at (js ''</body>'') text i
            then \<exists>i. occurs_at (js ''</body>'') text i \<and>
              (\<forall>j. occurs_at (js ''</body>'') text j \<longrightarrow> j \<le> i) \<and>
              out = take i text @ reloadScript srv @ drop i text
            else out = text @ reloadScript srv))) \<and>
    (watcher srv = None \<or> \<not> endsWith (resolve_path srv pathname) (js ''.html'') \<longrightarrow>
       first_response (serve_request srv pf pathname) = Some \<lparr> body = content, status = 200 \<rparr>)"
proof (intro conjI impI)
  assume h: "watcher srv \<noteq> None \<and> endsWith (resolve_path srv pathname) (js ''.html'') \<and>
      decode pf content = Inr text"
  with assms have "try_body srv pf pathname =
      respond pf srv \<lparr> body = encode pf (insert_reload_script srv text), status = 200 \<rparr>"
    by (simp add: try_body_file)
  then have "first_response (serve_request srv pf pathname) =
      Some \<lparr> body = encode pf (insert_reload_script srv text), status = 200 \<rparr>"
    by (rule serve_request_respond)
  with insert_reload_script_spec [of "text" srv]
  show "\<exists>out. first_response (serve_request srv pf pathname) =
             Some \<lparr> body = encode pf out, status = 200 \<rparr> \<and>
           (if \<exists>i. occurs_at (js ''</body>'') text i
            then \<exists>i. occurs_at (js ''</body>'') text i \<and>
              (\<forall>j. occurs_at (js ''</body>'') text j \<longrightarrow> j \<le> i) \<and>
              out = take i text @ reloadScript srv @ drop i text
            else out = text @ reloadScript srv)"
    by blast
next
  assume "watcher srv = None \<or> \<not> endsWith (resolve_path srv pathname) (js ''.html'')"
  with assms have "try_body srv pf pathname = respond pf srv \<lparr> body = content, status = 200 \<rparr>"
    by (auto simp: try_body_file)
  then show "first_response (serve_request srv pf pathname) = Some \<lparr> body = content, status = 200 \<rparr>"
    by (rule serve_request_respond)
qed

theorem html_gets_reload_script_witness:
  "first_response (serve_request example_server (example_platform (Inl UpgradeError)) (js ''/'')) =
     Some \<lparr> body = ascii ''<html><body>hi<script>(new WebSocket('' @ [34] @
       ascii ''ws://localhost:8888/.watch_n_serve/events'' @ [34] @
       ascii '')).addEventListener('' @ [34] @ ascii ''message'' @ [34] @
       ascii '', function (event) { window.location.reload(); });</script></body></html>'',
       status = 200 \<rparr> \<and>
   first_response (serve_request example_server (example_platform (Inl UpgradeError))
       (js ''/style.css'')) =
     Some \<lparr> body = ascii ''p { }'', status = 200 \<rparr>"
proof -
  let ?pf = "example_platform (Inl UpgradeError)"
  let ?text = "js ''<html><body>hi</body></html>''"
  let ?content = "ascii ''<html><body>hi</body></html>''"
  let ?tag = "js ''</body>''"
  have read: "readFile ?pf (resolve_path example_server (js ''/'')) = Inr ?content"
    unfolding example_paths by (simp add: example_platform_def example_site_def)
  have html: "endsWith (resolve_path example_server (js ''/'')) (js ''.html'')"
    unfolding example_paths by (simp add: endsWith_def js_def)
  have dec: "decode ?pf ?content = Inr ?text"
    by (simp add: example_platform_def example_decode)
  from html_gets_reload_script [OF example_not_events(1) read, of ?text] html dec
    example_server_fields(3)
  obtain out where fr: "first_response (serve_request example_server ?pf (js ''/'')) =
      Some \<lparr> body = encode ?pf out, status = 200 \<rparr>"
    and sp: "if \<exists>i. occurs_at ?tag ?text i
      then \<exists>i. occurs_at ?tag ?text i \<and> (\<forall>j. occurs_at ?tag ?text j \<longrightarrow> j \<le> i) \<and>
        out = take i ?text @ reloadScript example_server @ drop i ?text
      else out = ?text @ reloadScript example_server"
    by blast
  from lastIndexOf_cases [of ?text ?tag] example_lastIndexOf
  have o14: "occurs_at ?tag ?text 14" and m14: "\<forall>j. occurs_at ?tag ?text j \<longrightarrow> j \<le> 14"
    by auto
  from sp o14 obtain i where i: "occurs_at ?tag ?text i"
    "\<forall>j. occurs_at ?tag ?text j \<longrightarrow> j \<le> i"
    "out = take i ?text @ reloadScript example_server @ drop i ?text"
    by (auto split: if_splits)
  from i(1,2) o14 m14 have "i = 14" by (simp add: le_antisym)
  with i(3) have "out = take 14 ?text @ reloadScript example_server @ drop 14 ?text"
    by simp
  then have "encode ?pf out = ascii ''<html><body>hi<script>(new WebSocket('' @ [34] @
       ascii ''ws://localhost:8888/.watch_n_serve/events'' @ [34] @
       ascii '')).addEventListener('' @ [34] @ ascii ''message'' @ [34] @
       ascii '', function (event) { window.location.reload(); });</script></body></html>''"
    unfolding example_server_fields
    by (simp add: example_platform_def js_def ascii_def dquote_def)
  with fr have page: "first_response (serve_request example_server ?pf (js ''/'')) =
     Some \<lparr> body = ascii ''<html><body>hi<script>(new WebSocket('' @ [34] @
       ascii ''ws://localhost:8888/.watch_n_serve/events'' @ [34] @
       ascii '')).addEventListener('' @ [34] @ ascii ''message'' @ [34] @
       ascii '', function (event) { window.location.reload(); });</script></body></html>'',
       status = 200 \<rparr>"
    by simp
  have read': "readFile ?pf (resolve_path example_server (js ''/style.css'')) = Inr (ascii ''p { }'')"
    unfolding example_paths by (simp add: example_platform_def example_site_def js_def)
  have css: "\<not> endsWith (resolve_path example_server (js ''/style.css'')) (js ''.html'')"
    unfolding example_paths by (simp add: endsWith_def js_def)
  from html_gets_reload_script [OF example_not_events(2) read', of "[]"] css
  have "first_response (serve_request example_server ?pf (js ''/style.css'')) =
     Some \<lparr> body = ascii ''p { }'', status = 200 \<rparr>"
    by blast
  with page show ?thesis by simp
qed

section \<open>Server: a file that cannot be served\<close>

text \<open>
  C5. When reading the resolved file fails, or decoding its content does, the one
  response is status 404 with an empty body, the server is as it was before, and every
  later event goes as it would have gone without the request.
\<close>

theorem failed_read_is_404:
  assumes "\<not> (watcher srv \<noteq> None \<and> pathname = reloadEventPath srv)"
    and "(\<exists>e. readFile pf (resolve_path srv pathname) = Inl e) \<or>
      (\<exists>content e. readFile pf (resolve_path srv pathname) = Inr content \<and>
         watcher srv \<noteq> None \<and> endsWith (resolve_path srv pathname) (js ''.html'') \<and>
         decode pf content = Inl e)"
  shows "responses (serve_request srv pf pathname) = [\<lparr> body = [], status = 404 \<rparr>] \<and>
    server (serve_request srv pf pathname) = srv \<and>
    server_exec (Request pf pathname # es) srv = server_exec es srv"
proof -
  from assms obtain e where "try_body srv pf pathname = (srv, [], Some e)"
    by (auto simp: try_body_file)
  then have "responses (serve_request srv pf pathname) = [\<lparr> body = [], status = 404 \<rparr>]"
    and s: "server (serve_request srv pf pathname) = srv"
    by (rule serve_request_thrown)+
  moreover have "server_exec (Request pf pathname # es) srv = server_exec es srv"
    by (simp add: s split: option.splits)
  ultimately show ?thesis by simp
qed

theorem failed_read_is_404_witness:
  "responses (serve_request example_server (example_platform (Inl UpgradeError))
       (js ''/missing.html'')) = [\<lparr> body = [], status = 404 \<rparr>] \<and>
   server (serve_request example_server (example_platform (Inl UpgradeError))
       (js ''/missing.html'')) = example_server"
proof -
  let ?pf = "example_platform (Inl UpgradeError)"
  have "readFile ?pf (resolve_path example_server (js ''/missing.html'')) = Inl NotFound"
    unfolding example_paths by (simp add: example_platform_def example_site_def js_def)
  then have "(\<exists>e. readFile ?pf (resolve_path example_server (js ''/missing.html'')) = Inl e) \<or>
      (\<exists>content e. readFile ?pf (resolve_path example_server (js ''/missing.html'')) = Inr content \<and>
         watcher example_server \<noteq> None \<and>
         endsWith (resolve_path example_server (js ''/missing.html'')) (js ''.html'') \<and>
         decode ?pf content = Inl e)"
    by simp
  from failed_read_is_404 [OF example_not_events(3) this, of "[]"] show ?thesis
    by simp
qed

section \<open>Server: a client that closes\<close>

text \<open>
  C6. Start with no clients and let sockets be made and closed as the runtime does. In
  every state reached no client stands twice in \<open>reloadClients\<close>. When a client closes,
  it was in the array, the listener removes its first and only entry and leaves the others
  in their order, and from then on no \<open>send\<close> goes to it and it is not in the array. In
  any state at all, the listener takes away the first entry of a client that is in the
  array, and nothing else.
\<close>

theorem closed_client_leaves_broadcast_set:
  assumes "reloadClients srv = []"
    and "sockets_ok srv (es1 @ Close socket # es2)"
    and "server_exec es1 srv = Some (srv1, sent1)"
    and "server_exec es2 (on_close srv1 socket) = Some (srv2, sent2)"
  shows "distinct (reloadClients srv1) \<and> socket \<in> set (reloadClients srv1) \<and>
    reloadClients (on_close srv1 socket) = remove1 socket (reloadClients srv1) \<and>
    socket \<notin> set (reloadClients (on_close srv1 socket)) \<and>
    (\<forall>c. c \<noteq> socket \<longrightarrow>
       (c \<in> set (reloadClients (on_close srv1 socket)) \<longleftrightarrow> c \<in> set (reloadClients srv1))) \<and>
    distinct (reloadClients (on_close srv1 socket)) \<and>
    socket \<notin> fst ` set sent2 \<and> socket \<notin> set (reloadClients srv2) \<and>
    (\<forall>es srv' sent. sockets_ok srv es \<and> server_exec es srv = Some (srv', sent) \<longrightarrow>
       distinct (reloadClients srv')) \<and>
    (\<forall>s c. c \<in> set (reloadClients s) \<longrightarrow>
       reloadClients (on_close s c) = remove1 c (reloadClients s))"
proof -
  have cfg: "same_config srv srv" by (simp add: same_config_def)
  have once: "distinct (reloadClients srv')"
    if "sockets_ok srv es" "server_exec es srv = Some (srv', sent)" for es srv' sent
  proof -
    from that(1) obtain live used where "track srv es ([], []) = Some (live, used)"
      by (auto simp: sockets_ok_def)
    from track_exec [OF cfg this assms(1) _ _ that(2)] show ?thesis by simp
  qed
  from assms(2) obtain final where "track srv (es1 @ Close socket # es2) ([], []) = Some final"
    by (auto simp: sockets_ok_def)
  then obtain live1 used1 live2 used2
    where t1: "track srv es1 ([], []) = Some (live1, used1)"
      and inl: "socket \<in> set live1"
      and t2: "track srv es2 (remove1 socket live1, used1) = Some (live2, used2)"
    by (cases final) (auto simp: track_append split: option.splits if_splits)
  from track_exec [OF cfg t1 assms(1) _ _ assms(3)]
  have c1: "reloadClients srv1 = live1" and d1: "distinct live1"
    and u1: "set live1 \<subseteq> set used1" and cfg1: "same_config srv srv1"
    by simp_all
  let ?srv' = "on_close srv1 socket"
  have c': "reloadClients ?srv' = remove1 socket live1"
    using inl c1 by (simp add: on_close_registered)
  have cfg': "same_config srv ?srv'"
    using cfg1 by (simp add: same_config_def on_close_def)
  have d': "distinct (remove1 socket live1)" and u': "set (remove1 socket live1) \<subseteq> set used1"
    using d1 u1 by (auto dest: notin_set_remove1)
  from track_exec [OF cfg' t2 c' d' u' assms(4)]
  have c2: "reloadClients srv2 = live2"
    and l2: "set live2 \<subseteq> set (remove1 socket live1) \<union> (set used2 - set used1)"
    and s2: "fst ` set sent2 \<subseteq> set (remove1 socket live1) \<union> (set used2 - set used1)"
    by simp_all
  have gone: "socket \<notin> set (remove1 socket live1) \<union> (set used2 - set used1)"
    using d1 inl u1 by auto
  have others: "c \<in> set (remove1 socket live1) \<longleftrightarrow> c \<in> set live1" if "c \<noteq> socket" for c
    using that by simp
  from gone l2 s2 have "socket \<notin> fst ` set sent2" "socket \<notin> set live2"
    by blast+
  with c1 c2 c' d1 d' inl gone others
  have "distinct (reloadClients srv1) \<and> socket \<in> set (reloadClients srv1) \<and>
    reloadClients (on_close srv1 socket) = remove1 socket (reloadClients srv1) \<and>
    socket \<notin> set (reloadClients (on_close srv1 socket)) \<and>
    (\<forall>c. c \<noteq> socket \<longrightarrow>
       (c \<in> set (reloadClients (on_close srv1 socket)) \<longleftrightarrow> c \<in> set (reloadClients srv1))) \<and>
    distinct (reloadClients (on_close srv1 socket)) \<and>
    socket \<notin> fst ` set sent2 \<and> socket \<notin> set (reloadClients srv2)"
    by simp
  with once on_close_registered show ?thesis by blast
qed

theorem closed_client_leaves_broadcast_set_witness:
  "map_option (\<lambda>(srv, sent). reloadClients srv)
     (server_exec
       [Request (example_platform (Inr (1, \<lparr> body = [], status = 101 \<rparr>)))
          (js ''/.watch_n_serve/events''),
        Request (example_platform (Inr (2, \<lparr> body = [], status = 101 \<rparr>)))
          (js ''/.watch_n_serve/events'')]
       example_server) = Some [1, 2] \<and>
   map_option (\<lambda>(srv, sent). (reloadClients srv, sent))
     (server_exec
       ([Request (example_platform (Inr (1, \<lparr> body = [], status = 101 \<rparr>)))
          (js ''/.watch_n_serve/events''),
        Request (example_platform (Inr (2, \<lparr> body = [], status = 101 \<rparr>)))
          (js ''/.watch_n_serve/events'')] @
        Close 1 #
        [WatcherTask (FsEvent 0) (\<lambda>socket message. Inr ()),
         WatcherTask (Timeout 200) (\<lambda>socket message. Inr ())])
       example_server) = Some ([2], [(2, js ''updated'', True)]) \<and>
   map_option (\<lambda>(srv, sent). (1 \<in> set (reloadClients srv), 1 \<in> fst ` set sent))
     (server_exec
       ([Request (example_platform (Inr (1, \<lparr> body = [], status = 101 \<rparr>)))
          (js ''/.watch_n_serve/events''),
        Request (example_platform (Inr (2, \<lparr> body = [], status = 101 \<rparr>)))
          (js ''/.watch_n_serve/events'')] @
        Close 1 #
        [WatcherTask (FsEvent 0) (\<lambda>socket message. Inr ()),
         WatcherTask (Timeout 200) (\<lambda>socket message. Inr ())])
       example_server) = Some (False, False) \<and>
   map_option (\<lambda>(srv, sent). distinct (reloadClients srv))
     (server_exec
       [Request (example_platform (Inr (1, \<lparr> body = [], status = 101 \<rparr>)))
          (js ''/.watch_n_serve/events''),
        Request (example_platform (Inr (2, \<lparr> body = [], status = 101 \<rparr>)))
          (js ''/.watch_n_serve/events'')]
       example_server) = Some True"
proof -
  let ?es1 = "[Request (example_platform (Inr (1, \<lparr> body = [], status = 101 \<rparr>)))
          (js ''/.watch_n_serve/events''),
        Request (example_platform (Inr (2, \<lparr> body = [], status = 101 \<rparr>)))
          (js ''/.watch_n_serve/events'')]"
  let ?es2 = "[WatcherTask (FsEvent 0) (\<lambda>socket message. Inr ()),
         WatcherTask (Timeout 200) (\<lambda>socket message. Inr ())]"
  let ?srv1 = "example_server\<lparr> reloadClients := [1, 2] \<rparr>"
  have ok: "sockets_ok example_server (?es1 @ Close 1 # ?es2)"
    by (simp add: sockets_ok_def example_upgraded)
  have r1: "server_exec ?es1 example_server = Some (?srv1, [])"
    by (simp add: serve_request_server example_upgraded example_server_fields)
  have c: "on_close ?srv1 1 = example_server\<lparr> reloadClients := [2] \<rparr>"
    by (simp add: on_close_def indexOf_def splice_def)
  have "\<exists>srv2. server_exec ?es2 (on_close ?srv1 1) = Some (srv2, [(2, js ''updated'', True)]) \<and>
      reloadClients srv2 = [2]"
    unfolding c
    by (simp add: example_watcher new_Watcher_def watch_def on_fs_event_def update_def
        setTimeout_delay_def on_updated_def Let_def)
  then obtain srv2 sent2 where
    r2: "server_exec ?es2 (on_close ?srv1 1) = Some (srv2, sent2)"
    and c2: "reloadClients srv2 = [2]" and s2: "sent2 = [(2, js ''updated'', True)]"
    by blast
  have whole: "server_exec (?es1 @ Close 1 # ?es2) example_server = Some (srv2, sent2)"
    unfolding server_exec_append r1 using r2 by simp
  from closed_client_leaves_broadcast_set [OF example_server_fields(4) ok r1 r2]
  have "1 \<notin> set (reloadClients srv2)" and "1 \<notin> fst ` set sent2"
    and once: "distinct (reloadClients ?srv1)"
    by simp_all
  with whole have "map_option (\<lambda>(srv, sent). (1 \<in> set (reloadClients srv), 1 \<in> fst ` set sent))
     (server_exec (?es1 @ Close 1 # ?es2) example_server) = Some (False, False)"
    by simp
  moreover from whole c2 s2 have "map_option (\<lambda>(srv, sent). (reloadClients srv, sent))
     (server_exec (?es1 @ Close 1 # ?es2) example_server) = Some ([2], [(2, js ''updated'', True)])"
    by simp
  moreover from r1 have "map_option (\<lambda>(srv, sent). reloadClients srv)
     (server_exec ?es1 example_server) = Some [1, 2]"
    by simp
  moreover from r1 once have "map_option (\<lambda>(srv, sent). distinct (reloadClients srv))
     (server_exec ?es1 example_server) = Some True"
    by (simp only: option.map prod.case)
  ultimately show ?thesis by blast
qed

section \<open>Server: the broadcast\<close>

text \<open>
  C7. The listener for \<open>updated\<close> calls \<open>send\<close> with the text \<open>updated\<close> once for every
  client of \<open>reloadClients\<close>, in order, whether or not an earlier call threw, and leaves the
  server, its clients included, as it was. It runs when a task of the watcher dispatches
  a notification, and only then.
\<close>

theorem broadcast_sends_to_every_client:
  "fst (on_updated srv send) = srv \<and>
   map (\<lambda>(socket, message, sent). (socket, message)) (snd (on_updated srv send)) =
     map (\<lambda>socket. (socket, js ''updated'')) (reloadClients srv) \<and>
   map (\<lambda>(socket, message, sent). sent) (snd (on_updated srv send)) =
     map (\<lambda>socket. case send socket (js ''updated'') of Inl e \<Rightarrow> False | Inr u \<Rightarrow> True)
       (reloadClients srv) \<and>
   (\<forall>x w w' srv' sent. watcher srv = Some w \<and> step x w = Some w' \<and>
      server_step (WatcherTask x send) srv = Some (srv', sent) \<longrightarrow>
        reloadClients srv' = reloadClients srv \<and>
        sent = (if dispatched w' \<noteq> dispatched w then snd (on_updated srv send) else []))"
proof -
  have "map (\<lambda>(socket, message, sent). (socket, message)) (send_loop send xs) =
      map (\<lambda>socket. (socket, js ''updated'')) xs" for xs
    by (induction xs) (simp_all split: sum.splits)
  moreover have "map (\<lambda>(socket, message, sent). sent) (send_loop send xs) =
      map (\<lambda>socket. case send socket (js ''updated'') of Inl e \<Rightarrow> False | Inr u \<Rightarrow> True) xs" for xs
    by (induction xs) (simp_all split: sum.splits)
  ultimately show ?thesis
    by (auto simp: on_updated_def)
qed

theorem broadcast_sends_to_every_client_witness:
  "on_updated (example_server\<lparr> reloadClients := [1, 2, 3] \<rparr>)
     (\<lambda>socket message. if socket = 2 then Inl ConnectionError else Inr ()) =
     (example_server\<lparr> reloadClients := [1, 2, 3] \<rparr>,
      [(1, js ''updated'', True), (2, js ''updated'', False), (3, js ''updated'', True)]) \<and>
   map_option (\<lambda>(srv, sent). (reloadClients srv, sent))
     (server_exec
       [WatcherTask (FsEvent 0) (\<lambda>socket message. if socket = 2 then Inl ConnectionError else Inr ()),
        WatcherTask (Timeout 200) (\<lambda>socket message. if socket = 2 then Inl ConnectionError else Inr ())]
       (example_server\<lparr> reloadClients := [1, 2, 3] \<rparr>)) =
     Some ([1, 2, 3],
       [(1, js ''updated'', True), (2, js ''updated'', False), (3, js ''updated'', True)])"
proof -
  let ?srv = "example_server\<lparr> reloadClients := [1, 2, 3] \<rparr>"
  let ?send = "\<lambda>(socket::nat) (message::jsstring). if socket = 2 then Inl ConnectionError else Inr ()"
  let ?log = "[(1, js ''updated'', True), (2, js ''updated'', False), (3, js ''updated'', True)]"
  from broadcast_sends_to_every_client [of ?srv ?send]
  have same: "fst (on_updated ?srv ?send) = ?srv"
    by blast
  have log: "snd (on_updated ?srv ?send) = ?log"
    by (simp add: on_updated_def)
  from same log have a: "on_updated ?srv ?send = (?srv, ?log)"
    by (simp add: prod_eq_iff)
  have "\<exists>srv1 w1 w2. server_step (WatcherTask (FsEvent 0) ?send) ?srv = Some (srv1, []) \<and>
      reloadClients srv1 = [1, 2, 3] \<and> watcher srv1 = Some w1 \<and>
      step (Timeout 200) w1 = Some w2 \<and> dispatched w2 \<noteq> dispatched w1"
    by (simp add: example_watcher new_Watcher_def watch_def on_fs_event_def update_def
        setTimeout_delay_def Let_def)
  then obtain srv1 w1 w2 where
    s1: "server_step (WatcherTask (FsEvent 0) ?send) ?srv = Some (srv1, [])"
    and c1: "reloadClients srv1 = [1, 2, 3]" and w1: "watcher srv1 = Some w1"
    and w2: "step (Timeout 200) w1 = Some w2" and d: "dispatched w2 \<noteq> dispatched w1"
    by blast
  obtain srv2 sent2 where u: "on_updated (srv1\<lparr> watcher := Some w2 \<rparr>) ?send = (srv2, sent2)"
    by (cases "on_updated (srv1\<lparr> watcher := Some w2 \<rparr>) ?send")
  with w1 w2 d have s2: "server_step (WatcherTask (Timeout 200) ?send) srv1 = Some (srv2, sent2)"
    by simp
  from w1 w2 s2
  have "watcher srv1 = Some w1 \<and> step (Timeout 200) w1 = Some w2 \<and>
      server_step (WatcherTask (Timeout 200) ?send) srv1 = Some (srv2, sent2)"
    by simp
  then have "reloadClients srv2 = reloadClients srv1 \<and>
      sent2 = (if dispatched w2 \<noteq> dispatched w1 then snd (on_updated srv1 ?send) else [])"
    by (rule broadcast_sends_to_every_client [of srv1 ?send,
          THEN conjunct2, THEN conjunct2, THEN conjunct2, rule_format])
  with c1 d have "reloadClients srv2 = [1, 2, 3]" and "sent2 = ?log"
    by (simp_all add: on_updated_def)
  with s1 s2 have "map_option (\<lambda>(srv, sent). (reloadClients srv, sent))
     (server_exec [WatcherTask (FsEvent 0) ?send, WatcherTask (Timeout 200) ?send] ?srv) =
     Some ([1, 2, 3], ?log)"
    by simp
  with a show ?thesis by simp
qed

end
